theory Spec2Isabelle
  imports Main "HOL-Library.Word"
begin

section \<open>WiFiBase: the known-network registry and the connection orchestrator\<close>

text \<open>
  A shallow embedding of \<^verbatim>\<open>src/WiFiBase/WiFiBase.cpp\<close>. Every method of the class
  is a function that takes the object (a record of its fields) and returns its result
  together with the updated object. Debug output (\<^verbatim>\<open>DEBUG*_\<close> macros) is left out.
\<close>

subsection \<open>Constants of the header\<close>

text \<open>
  \<^verbatim>\<open>WiFiBase.h\<close> is not among the sources. The constants it declares are parameters
  of the model; nothing is assumed about their values except where a theorem says so.
  The fields whose declarations it holds (\<^verbatim>\<open>_numKnownNetworks\<close>,
  \<^verbatim>\<open>_allocatedKnownNetworks\<close>, \<^verbatim>\<open>_connectedIndex\<close>) are modelled without a
  width; the widths that the source file itself shows (\<^verbatim>\<open>uint16_t newAlloc\<close>,
  \<^verbatim>\<open>uint8_t index\<close>, \<^verbatim>\<open>unsigned long\<close> milliseconds) are written out.
\<close>

record header =
  MAX_KNOWN_NETWORKS :: nat
  INDEX_DISCONNECTED :: int
  DEFAULT_CONNECT_TIMEOUT :: "32 word"

subsection \<open>The collaborators\<close>

text \<open>
  \<^verbatim>\<open>wl_status_t\<close> of the Arduino WiFi library; the code tells apart only
  \<^verbatim>\<open>WL_CONNECTED\<close> and \<^verbatim>\<open>WL_CONNECT_FAILED\<close>.
\<close>

datatype wl_status =
    WL_NO_SHIELD
  | WL_IDLE_STATUS
  | WL_NO_SSID_AVAIL
  | WL_SCAN_COMPLETED
  | WL_CONNECTED
  | WL_CONNECT_FAILED
  | WL_CONNECTION_LOST
  | WL_DISCONNECTED

text \<open>
  The radio driver, the clock and the config portal are outside the class. They are a
  record of operations on a world \<open>'w\<close> of their own: each call may change the world.
  \<open>wifi_begin None\<close> is \<^verbatim>\<open>WiFi.begin()\<close> with no argument (the credential the
  radio has stored), \<open>wifi_begin (Some (ssid, passwd))\<close> is
  \<^verbatim>\<open>WiFi.begin(ssid, passwd)\<close>. \<open>wifi_SSID\<close> is the truth value of
  \<^verbatim>\<open>WiFi.SSID()\<close> as the constructor tests it.
\<close>

record 'w collab =
  wifi_SSID :: "'w \<Rightarrow> bool"
  wifi_status :: "'w \<Rightarrow> wl_status \<times> 'w"
  wifi_begin :: "(string \<times> string) option \<Rightarrow> 'w \<Rightarrow> 'w"
  esp_wifi_disconnect :: "'w \<Rightarrow> 'w"
  millis :: "'w \<Rightarrow> 32 word \<times> 'w"
  delay :: "nat \<Rightarrow> 'w \<Rightarrow> 'w"
  startConfigPortal :: "string option \<Rightarrow> string option \<Rightarrow> 'w \<Rightarrow> bool \<times> 'w"
  getSSID :: "'w \<Rightarrow> string"
  getPassword :: "'w \<Rightarrow> string"

text \<open>
  What the object asks of its collaborators is recorded, in order, in a log that is
  not a field of the C++ class: it is how the theorems speak of the calls issued.
\<close>

datatype event =
    Status wl_status
  | Begin "(string \<times> string) option"
  | Millis "32 word"
  | Delay nat
  | Esp_wifi_disconnect
  | StartConfigPortal "string option" "string option" bool
  | ShutdownAccessPoint

subsection \<open>The object\<close>

record network =
  ssid :: string
  passwd :: string

text \<open>
  \<open>knownNetworks\<close> is the heap block \<^verbatim>\<open>_knownNetworks\<close> points to: one slot per
  allocated element, \<open>None\<close> for a slot that \<^verbatim>\<open>malloc\<close> returned and nothing has
  written yet. A \<^verbatim>\<open>const char *\<close> that may be \<^verbatim>\<open>NULL\<close> is a \<open>string option\<close>.
\<close>

record 'w wifibase =
  background :: bool
  APSsid :: "string option"
  APPasswd :: "string option"
  running :: bool
  accessPointEnabled :: bool
  accessPointActive :: bool
  numKnownNetworks :: nat
  allocatedKnownNetworks :: nat
  knownNetworks :: "network option list"
  connectionTimeoutMs :: "32 word"
  connectedIndex :: int
  world :: 'w
  calls :: "event list"

subsection \<open>Known-network registry\<close>

definition malloc :: "nat \<Rightarrow> network option list" where
  "malloc n = replicate n None"

text \<open>\<^verbatim>\<open>memcpy(dst, src, n elements)\<close>: the first \<open>n\<close> slots of \<open>dst\<close> become those of \<open>src\<close>.\<close>

definition memcpy :: "network option list \<Rightarrow> network option list \<Rightarrow> nat \<Rightarrow> network option list" where
  "memcpy dst src n = take n src @ drop n dst"

text \<open>
  Reading slot \<open>i\<close>. Outside the block, or at a slot never written, the C code reads
  garbage; the model gives \<open>None\<close> there, and \<open>reachable_registry\<close> below shows that
  no slot under \<open>numKnownNetworks\<close> is such a slot in a reachable state.
\<close>

definition slot :: "'w wifibase \<Rightarrow> nat \<Rightarrow> network option" where
  "slot s i = (if i < length (knownNetworks s) then knownNetworks s ! i else None)"

text \<open>\<^verbatim>\<open>strcmp(_knownNetworks[i].ssid, ssid) == 0\<close>\<close>

definition ssid_matches :: "'w wifibase \<Rightarrow> nat \<Rightarrow> string \<Rightarrow> bool" where
  "ssid_matches s i name = (case slot s i of None \<Rightarrow> False | Some e \<Rightarrow> ssid e = name)"

function lookup_loop :: "header \<Rightarrow> 'w wifibase \<Rightarrow> string \<Rightarrow> nat \<Rightarrow> int" where
  "lookup_loop K s name i =
     (if i < numKnownNetworks s then
        (if ssid_matches s i name then int i else lookup_loop K s name (Suc i))
      else INDEX_DISCONNECTED K)"
  by pat_completeness auto

termination
  by (relation "measure (\<lambda>(K, s, name, i). numKnownNetworks s - i)") auto

declare lookup_loop.simps [simp del]

definition lookupKnownNetwork :: "header \<Rightarrow> 'w wifibase \<Rightarrow> string \<Rightarrow> int" where
  "lookupKnownNetwork K s name = lookup_loop K s name 0"

definition hasKnownNetwork :: "header \<Rightarrow> 'w wifibase \<Rightarrow> string \<Rightarrow> bool" where
  "hasKnownNetwork K s name = (lookupKnownNetwork K s name \<noteq> INDEX_DISCONNECTED K)"

text \<open>
  The tail of \<^verbatim>\<open>addKnownNetwork\<close>: both strings are duplicated into slot
  \<^verbatim>\<open>_numKnownNetworks\<close>, and the count goes up by one.
\<close>

definition store_entry :: "string \<Rightarrow> string \<Rightarrow> 'w wifibase \<Rightarrow> 'w wifibase" where
  "store_entry name pw s =
     s\<lparr>knownNetworks := (knownNetworks s)[numKnownNetworks s := Some \<lparr>ssid = name, passwd = pw\<rparr>],
       numKnownNetworks := numKnownNetworks s + 1\<rparr>"

definition addKnownNetwork :: "header \<Rightarrow> 'w wifibase \<Rightarrow> string \<Rightarrow> string \<Rightarrow> bool \<times> 'w wifibase" where
  "addKnownNetwork K s name pw =
     (if allocatedKnownNetworks s = 0 then
        (True, store_entry name pw
                 (s\<lparr>allocatedKnownNetworks := 2, numKnownNetworks := 0, knownNetworks := malloc 2\<rparr>))
      else if hasKnownNetwork K s name then (True, s)
      else if numKnownNetworks s = allocatedKnownNetworks s then
        (if numKnownNetworks s \<ge> MAX_KNOWN_NETWORKS K then (False, s)
         else
           let newAlloc = (allocatedKnownNetworks s * 2) mod 65536;
               newNetworks = memcpy (malloc newAlloc) (knownNetworks s) (numKnownNetworks s)
           in (True, store_entry name pw
                       (s\<lparr>knownNetworks := newNetworks, allocatedKnownNetworks := newAlloc\<rparr>)))
      else (True, store_entry name pw s))"

subsection \<open>Configuration\<close>

definition configBackground :: "'w wifibase \<Rightarrow> bool \<Rightarrow> bool \<times> 'w wifibase" where
  "configBackground s b = (if running s then (False, s) else (True, s\<lparr>background := b\<rparr>))"

definition configureAccessPoint ::
    "'w wifibase \<Rightarrow> string option \<Rightarrow> string option \<Rightarrow> bool \<times> 'w wifibase" where
  "configureAccessPoint s name pw =
     (if accessPointActive s then (False, s)
      else (True, s\<lparr>APSsid := name, APPasswd := pw, accessPointEnabled := True\<rparr>))"

text \<open>\<^verbatim>\<open>_shutdownAccessPoint\<close> has an empty body that returns \<^verbatim>\<open>false\<close>.\<close>

definition shutdownAccessPoint :: "'w wifibase \<Rightarrow> bool \<times> 'w wifibase" where
  "shutdownAccessPoint s = (False, s\<lparr>calls := calls s @ [ShutdownAccessPoint]\<rparr>)"

definition disableAccessPoint :: "'w wifibase \<Rightarrow> bool \<times> 'w wifibase" where
  "disableAccessPoint s =
     (if accessPointActive s then
        (case shutdownAccessPoint s of
           (ok, s1) \<Rightarrow> if \<not> ok then (False, s1) else (True, s1\<lparr>accessPointEnabled := False\<rparr>))
      else (True, s\<lparr>accessPointEnabled := False\<rparr>))"

definition setConnectTimeoutMs :: "'w wifibase \<Rightarrow> 32 word \<Rightarrow> bool \<times> 'w wifibase" where
  "setConnectTimeoutMs s ms = (True, s\<lparr>connectionTimeoutMs := ms\<rparr>)"

text \<open>
  The constructor: first the field initialisations, then, when asked to and when the
  radio holds a credential, \<^verbatim>\<open>addKnownNetwork("\0", "\0")\<close>, which passes two empty
  C strings.
\<close>

definition initial_fields :: "header \<Rightarrow> 'w \<Rightarrow> 'w wifibase" where
  "initial_fields K w =
     \<lparr>background = True, APSsid = None, APPasswd = None, running = False,
      accessPointEnabled = False, accessPointActive = False,
      numKnownNetworks = 0, allocatedKnownNetworks = 0, knownNetworks = [],
      connectionTimeoutMs = DEFAULT_CONNECT_TIMEOUT K,
      connectedIndex = INDEX_DISCONNECTED K, world = w, calls = []\<rparr>"

definition WiFiBase :: "header \<Rightarrow> 'w collab \<Rightarrow> bool \<Rightarrow> 'w \<Rightarrow> 'w wifibase" where
  "WiFiBase K E useStored w =
     (if useStored \<and> wifi_SSID E w then snd (addKnownNetwork K (initial_fields K w) [] [])
      else initial_fields K w)"

subsection \<open>Calls to the collaborators\<close>

definition WiFi_status :: "'w collab \<Rightarrow> 'w wifibase \<Rightarrow> wl_status \<times> 'w wifibase" where
  "WiFi_status E s =
     (case wifi_status E (world s) of
        (st, w) \<Rightarrow> (st, s\<lparr>world := w, calls := calls s @ [Status st]\<rparr>))"

definition WiFi_begin :: "'w collab \<Rightarrow> (string \<times> string) option \<Rightarrow> 'w wifibase \<Rightarrow> 'w wifibase" where
  "WiFi_begin E cred s = s\<lparr>world := wifi_begin E cred (world s), calls := calls s @ [Begin cred]\<rparr>"

definition call_esp_wifi_disconnect :: "'w collab \<Rightarrow> 'w wifibase \<Rightarrow> 'w wifibase" where
  "call_esp_wifi_disconnect E s =
     s\<lparr>world := esp_wifi_disconnect E (world s), calls := calls s @ [Esp_wifi_disconnect]\<rparr>"

definition call_millis :: "'w collab \<Rightarrow> 'w wifibase \<Rightarrow> 32 word \<times> 'w wifibase" where
  "call_millis E s =
     (case millis E (world s) of
        (t, w) \<Rightarrow> (t, s\<lparr>world := w, calls := calls s @ [Millis t]\<rparr>))"

definition call_delay :: "'w collab \<Rightarrow> nat \<Rightarrow> 'w wifibase \<Rightarrow> 'w wifibase" where
  "call_delay E ms s = s\<lparr>world := delay E ms (world s), calls := calls s @ [Delay ms]\<rparr>"

definition call_startConfigPortal ::
    "'w collab \<Rightarrow> string option \<Rightarrow> string option \<Rightarrow> 'w wifibase \<Rightarrow> bool \<times> 'w wifibase" where
  "call_startConfigPortal E name pw s =
     (case startConfigPortal E name pw (world s) of
        (ok, w) \<Rightarrow> (ok, s\<lparr>world := w, calls := calls s @ [StartConfigPortal name pw ok]\<rparr>))"

subsection \<open>Connection orchestrator\<close>

definition connected :: "header \<Rightarrow> 'w wifibase \<Rightarrow> bool" where
  "connected K s = (connectedIndex s \<noteq> INDEX_DISCONNECTED K)"

text \<open>\<^verbatim>\<open>_setConnected(uint8_t index)\<close>: the argument is converted to 8 bits.\<close>

definition setConnected :: "int \<Rightarrow> 'w wifibase \<Rightarrow> 'w wifibase" where
  "setConnected index s = s\<lparr>connectedIndex := index mod 256\<rparr>"

definition setDisconnected :: "header \<Rightarrow> 'w wifibase \<Rightarrow> 'w wifibase" where
  "setDisconnected K s = s\<lparr>connectedIndex := INDEX_DISCONNECTED K\<rparr>"

text \<open>
  The \<^verbatim>\<open>while (true)\<close> of \<^verbatim>\<open>_connectWait\<close>. Nothing in the code bounds the number
  of rounds (the status may stay undecided while the clock stands still), so the loop
  takes fuel: one unit per round, \<open>None\<close> when it runs out.
\<close>

fun connectWait_loop ::
    "'w collab \<Rightarrow> nat \<Rightarrow> 32 word \<Rightarrow> 'w wifibase \<Rightarrow> (bool \<times> 'w wifibase) option" where
  "connectWait_loop E 0 start s = None"
| "connectWait_loop E (Suc n) start s =
     (case WiFi_status E s of
        (status, s1) \<Rightarrow>
          if status = WL_CONNECTED then Some (True, s1)
          else if status = WL_CONNECT_FAILED then Some (False, s1)
          else
            (case call_millis E s1 of
               (now, s2) \<Rightarrow>
                 if now - start > connectionTimeoutMs s2
                 then Some (False, call_esp_wifi_disconnect E s2)
                 else connectWait_loop E n start (call_delay E 100 s2)))"

definition connectWait :: "'w collab \<Rightarrow> nat \<Rightarrow> 'w wifibase \<Rightarrow> (bool \<times> 'w wifibase) option" where
  "connectWait E n s = (case call_millis E s of (start, s0) \<Rightarrow> connectWait_loop E n start s0)"

text \<open>
  The \<^verbatim>\<open>for (; index < _numKnownNetworks; index++)\<close> of \<^verbatim>\<open>_connectToNetwork\<close>.
  \<open>Some (False, s)\<close> is the loop running to its end; a slot that holds no entry has
  no defined name to pass on, and gives \<open>None\<close>.
\<close>

function connect_loop ::
    "'w collab \<Rightarrow> nat \<Rightarrow> nat \<Rightarrow> 'w wifibase \<Rightarrow> (bool \<times> 'w wifibase) option" where
  "connect_loop E n index s =
     (if index < numKnownNetworks s then
        (case slot s index of
           None \<Rightarrow> None
         | Some e \<Rightarrow>
             (case connectWait E n (WiFi_begin E (Some (ssid e, passwd e)) s) of
                None \<Rightarrow> None
              | Some (ok, s1) \<Rightarrow>
                  if ok then Some (True, setConnected (int index) s1)
                  else connect_loop E n (Suc index) s1))
      else Some (False, s))"
  by pat_completeness auto

termination
proof (relation "measure (\<lambda>(E, n, index, s). numKnownNetworks s - index)")
  show "wf (measure (\<lambda>(E, n, index, s). numKnownNetworks s - index))" by simp
next
  fix E :: "'w collab" and n index :: nat and s :: "'w wifibase" and e r ok s1
  assume lt: "index < numKnownNetworks s"
    and w: "connectWait E n (WiFi_begin E (Some (ssid e, passwd e)) s) = Some r"
    and r: "(ok, s1) = r"
  txt \<open>The wait leaves the number of known networks alone.\<close>
  have loop: "numKnownNetworks s' = numKnownNetworks s0"
    if "connectWait_loop E m start s0 = Some (ok', s')" for m start s0 ok' s'
    using that
  proof (induction m arbitrary: s0)
    case 0
    then show ?case by simp
  next
    case (Suc m)
    obtain st t1 where st: "WiFi_status E s0 = (st, t1)" by (cases "WiFi_status E s0")
    obtain now t2 where now: "call_millis E t1 = (now, t2)" by (cases "call_millis E t1")
    have n2: "numKnownNetworks t1 = numKnownNetworks s0" "numKnownNetworks t2 = numKnownNetworks s0"
      using st now by (auto simp: WiFi_status_def call_millis_def split: prod.splits)
    show ?case
    proof (cases "st = WL_CONNECTED \<or> st = WL_CONNECT_FAILED")
      case True
      then have "s' = t1" using Suc.prems st by auto
      then show ?thesis using n2 by simp
    next
      case False
      show ?thesis
      proof (cases "now - start > connectionTimeoutMs t2")
        case True
        then have "s' = call_esp_wifi_disconnect E t2"
          using Suc.prems st now False by auto
        then show ?thesis using n2 by (simp add: call_esp_wifi_disconnect_def)
      next
        case wait: False
        then have "connectWait_loop E m start (call_delay E 100 t2) = Some (ok', s')"
          using Suc.prems st now False by auto
        from Suc.IH [OF this] show ?thesis using n2 by (simp add: call_delay_def)
      qed
    qed
  qed
  obtain start t0 where m: "call_millis E (WiFi_begin E (Some (ssid e, passwd e)) s) = (start, t0)"
    by (cases "call_millis E (WiFi_begin E (Some (ssid e, passwd e)) s)")
  have "numKnownNetworks t0 = numKnownNetworks s"
    using m by (auto simp: call_millis_def WiFi_begin_def split: prod.splits)
  moreover have "connectWait_loop E n start t0 = Some (ok, s1)"
    using w r m by (simp add: connectWait_def)
  ultimately have "numKnownNetworks s1 = numKnownNetworks s" using loop by simp
  then show "((E, n, Suc index, s1), (E, n, index, s))
      \<in> measure (\<lambda>(E, n, index, s). numKnownNetworks s - index)"
    using lt by simp
qed

declare connect_loop.simps [simp del]

text \<open>
  \<^verbatim>\<open>_connectToNetwork\<close>. \<^verbatim>\<open>_knownNetworks[index].ssid[index] == '\0'\<close> is read with
  \<^verbatim>\<open>index\<close> 0: the first character of the name of entry 0 is the terminator, that is,
  the name is empty. \<open>n\<close> is the fuel of each wait.
\<close>

definition connectToNetwork ::
    "header \<Rightarrow> 'w collab \<Rightarrow> nat \<Rightarrow> 'w wifibase \<Rightarrow> (bool \<times> 'w wifibase) option" where
  "connectToNetwork K E n s =
     (case WiFi_status E s of
        (status, s0) \<Rightarrow>
          if status = WL_CONNECTED then Some (True, s0)
          else if numKnownNetworks s0 \<noteq> 0 then
            (case slot s0 0 of
               None \<Rightarrow> None
             | Some e \<Rightarrow>
                 if ssid e = [] then
                   (case connectWait E n (WiFi_begin E None s0) of
                      None \<Rightarrow> None
                    | Some (ok, s1) \<Rightarrow>
                        if ok then Some (True, setConnected 0 s1)
                        else
                          (case connect_loop E n 1 s1 of
                             None \<Rightarrow> None
                           | Some (ok2, s2) \<Rightarrow>
                               if ok2 then Some (True, s2) else Some (False, setDisconnected K s2)))
                 else
                   (case connect_loop E n 0 s0 of
                      None \<Rightarrow> None
                    | Some (ok2, s2) \<Rightarrow>
                        if ok2 then Some (True, s2) else Some (False, setDisconnected K s2)))
          else Some (False, setDisconnected K s0))"

text \<open>
  \<^verbatim>\<open>_startupAccessPoint\<close>. What \<^verbatim>\<open>addKnownNetwork\<close> returns is not used;
  \<^verbatim>\<open>index = _numKnownNetworks - 1\<close> is computed in \<^verbatim>\<open>int\<close>.
\<close>

definition startupAccessPoint :: "header \<Rightarrow> 'w collab \<Rightarrow> 'w wifibase \<Rightarrow> bool \<times> 'w wifibase" where
  "startupAccessPoint K E s =
     (case call_startConfigPortal E (APSsid s) (APPasswd s) s of
        (ok, s1) \<Rightarrow>
          if \<not> ok then (False, s1)
          else
            let index = lookupKnownNetwork K s1 (getSSID E (world s1)) in
            if index = INDEX_DISCONNECTED K then
              (case addKnownNetwork K s1 (getSSID E (world s1)) (getPassword E (world s1)) of
                 (added, s2) \<Rightarrow> (True, setConnected (int (numKnownNetworks s2) - 1) s2))
            else (True, setConnected index s1))"

text \<open>\<^verbatim>\<open>startup\<close>; the test of \<^verbatim>\<open>_background\<close> guards an empty block.\<close>

definition startup ::
    "header \<Rightarrow> 'w collab \<Rightarrow> nat \<Rightarrow> 'w wifibase \<Rightarrow> (bool \<times> 'w wifibase) option" where
  "startup K E n s =
     (case connectToNetwork K E n s of
        None \<Rightarrow> None
      | Some (ok, s1) \<Rightarrow>
          if ok then Some (True, s1)
          else if accessPointEnabled s1 then
            (case startupAccessPoint K E s1 of
               (ok2, s2) \<Rightarrow> if ok2 then Some (True, s2) else Some (False, s2))
          else Some (False, s1))"

subsection \<open>A simulated radio, clock and portal\<close>

text \<open>
  A small deterministic collaborator for running the model on concrete inputs. The
  link status is whatever \<open>outcome\<close> says of the credential last begun, and stays so;
  an aborted attempt leaves \<^verbatim>\<open>WL_DISCONNECTED\<close>; the clock advances by the length of
  each delay; the portal returns the credential in \<open>sim_portal\<close>, or fails when there
  is none.
\<close>

record simworld =
  sim_link :: wl_status
  sim_clock :: "32 word"
  sim_stored :: bool
  sim_portal :: "(string \<times> string) option"

definition sim :: "((string \<times> string) option \<Rightarrow> wl_status) \<Rightarrow> simworld collab" where
  "sim outcome =
     \<lparr>wifi_SSID = sim_stored,
      wifi_status = (\<lambda>w. (sim_link w, w)),
      wifi_begin = (\<lambda>cred w. w\<lparr>sim_link := outcome cred\<rparr>),
      esp_wifi_disconnect = (\<lambda>w. w\<lparr>sim_link := WL_DISCONNECTED\<rparr>),
      millis = (\<lambda>w. (sim_clock w, w)),
      delay = (\<lambda>ms w. w\<lparr>sim_clock := sim_clock w + of_nat ms\<rparr>),
      startConfigPortal = (\<lambda>name pw w. (sim_portal w \<noteq> None, w)),
      getSSID = (\<lambda>w. case sim_portal w of None \<Rightarrow> [] | Some (name, pw) \<Rightarrow> name),
      getPassword = (\<lambda>w. case sim_portal w of None \<Rightarrow> [] | Some (name, pw) \<Rightarrow> pw)\<rparr>"

definition sim_idle :: simworld where
  "sim_idle = \<lparr>sim_link = WL_IDLE_STATUS, sim_clock = 0, sim_stored = False, sim_portal = None\<rparr>"

text \<open>Only the network named \<open>good\<close> can be joined; every other attempt is refused.\<close>

definition only :: "string \<Rightarrow> (string \<times> string) option \<Rightarrow> wl_status" where
  "only good cred =
     (case cred of
        None \<Rightarrow> WL_CONNECT_FAILED
      | Some (name, pw) \<Rightarrow> if name = good then WL_CONNECTED else WL_CONNECT_FAILED)"


text \<open>A header with room for \<open>m\<close> networks and \<open>-1\<close> as the reserved index.\<close>

definition hdr :: "nat \<Rightarrow> header" where
  "hdr m = \<lparr>MAX_KNOWN_NETWORKS = m, INDEX_DISCONNECTED = -1, DEFAULT_CONNECT_TIMEOUT = 10000\<rparr>"

text \<open>Adding a list of networks in order, keeping each call's result.\<close>

fun add_all ::
    "header \<Rightarrow> 'w wifibase \<Rightarrow> (string \<times> string) list \<Rightarrow> bool list \<times> 'w wifibase" where
  "add_all K s [] = ([], s)"
| "add_all K s ((name, pw) # rest) =
     (case addKnownNetwork K s name pw of
        (ok, s1) \<Rightarrow> (case add_all K s1 rest of (oks, s2) \<Rightarrow> (ok # oks, s2)))"

subsection \<open>Frames, invariants and reachable states\<close>

text \<open>
  A connection attempt changes nothing of the object but the world and the log:
  \<open>same_fields s s'\<close> says that \<open>s'\<close> differs from \<open>s\<close> in these two at most.
\<close>

definition same_fields :: "'w wifibase \<Rightarrow> 'w wifibase \<Rightarrow> bool" where
  "same_fields s s' =
     (background s' = background s \<and> APSsid s' = APSsid s \<and> APPasswd s' = APPasswd s \<and>
      running s' = running s \<and> accessPointEnabled s' = accessPointEnabled s \<and>
      accessPointActive s' = accessPointActive s \<and>
      numKnownNetworks s' = numKnownNetworks s \<and>
      allocatedKnownNetworks s' = allocatedKnownNetworks s \<and>
      knownNetworks s' = knownNetworks s \<and>
      connectionTimeoutMs s' = connectionTimeoutMs s \<and>
      connectedIndex s' = connectedIndex s)"

text \<open>\<open>same_settings\<close>: everything but the registry is unchanged.\<close>

definition same_settings :: "'w wifibase \<Rightarrow> 'w wifibase \<Rightarrow> bool" where
  "same_settings s s' =
     (background s' = background s \<and> APSsid s' = APSsid s \<and> APPasswd s' = APPasswd s \<and>
      running s' = running s \<and> accessPointEnabled s' = accessPointEnabled s \<and>
      accessPointActive s' = accessPointActive s \<and>
      connectionTimeoutMs s' = connectionTimeoutMs s \<and>
      connectedIndex s' = connectedIndex s \<and> world s' = world s \<and> calls s' = calls s)"

text \<open>
  \<open>same_config\<close>: the configuration fields are unchanged; \<open>same_registry\<close>: the count, the
  allocated size and the block are unchanged.
\<close>

definition same_config :: "'w wifibase \<Rightarrow> 'w wifibase \<Rightarrow> bool" where
  "same_config s s' =
     (background s' = background s \<and> APSsid s' = APSsid s \<and> APPasswd s' = APPasswd s \<and>
      running s' = running s \<and> accessPointEnabled s' = accessPointEnabled s \<and>
      accessPointActive s' = accessPointActive s \<and>
      connectionTimeoutMs s' = connectionTimeoutMs s)"

definition same_registry :: "'w wifibase \<Rightarrow> 'w wifibase \<Rightarrow> bool" where
  "same_registry s s' =
     (numKnownNetworks s' = numKnownNetworks s \<and>
      allocatedKnownNetworks s' = allocatedKnownNetworks s \<and>
      knownNetworks s' = knownNetworks s)"

text \<open>
  The slots in use, and the shape of the registry in every reachable state: the count is
  within the allocated size, which is the length of the block, and every slot in use has
  been written.
\<close>

definition known :: "'w wifibase \<Rightarrow> network option list" where
  "known s = take (numKnownNetworks s) (knownNetworks s)"

definition wf_registry :: "'w wifibase \<Rightarrow> bool" where
  "wf_registry s =
     (numKnownNetworks s \<le> allocatedKnownNetworks s \<and>
      length (knownNetworks s) = allocatedKnownNetworks s \<and>
      None \<notin> set (known s))"

text \<open>A name is present when a slot in use holds it.\<close>

definition present :: "'w wifibase \<Rightarrow> string \<Rightarrow> bool" where
  "present s name = (\<exists>i<numKnownNetworks s. ssid_matches s i name)"

text \<open>
  \<^verbatim>\<open>INDEX_DISCONNECTED\<close> is declared in the absent header. The specification calls it a
  reserved value, a sentinel for "not found" and "disconnected": for a registry of \<open>n\<close>
  entries that is to say that it is none of the indices \<open>0, \<dots>, n - 1\<close>.
\<close>

definition valid_sentinel :: "header \<Rightarrow> nat \<Rightarrow> bool" where
  "valid_sentinel K n = (INDEX_DISCONNECTED K < 0 \<or> int n \<le> INDEX_DISCONNECTED K)"

text \<open>
  The allocated size is 0 before the first add and a power of two from 2 on after it;
  it doubles only from a full block smaller than the maximum.
\<close>

definition capacity_ok :: "header \<Rightarrow> 'w wifibase \<Rightarrow> bool" where
  "capacity_ok K s =
     (allocatedKnownNetworks s = 0 \<or>
      (\<exists>k. allocatedKnownNetworks s = 2 ^ Suc k \<and> (k = 0 \<or> 2 ^ k < MAX_KNOWN_NETWORKS K)))"

text \<open>
  The states a caller can bring the object to: construction, then any sequence of the
  public methods, the world changing freely between the calls.
\<close>

inductive reachable :: "header \<Rightarrow> 'w collab \<Rightarrow> 'w wifibase \<Rightarrow> bool" for K E where
  constructed: "reachable K E (WiFiBase K E useStored w)"
| world_moves: "reachable K E s \<Longrightarrow> reachable K E (s\<lparr>world := w\<rparr>)"
| after_configBackground: "reachable K E s \<Longrightarrow> reachable K E (snd (configBackground s b))"
| after_configureAccessPoint:
    "reachable K E s \<Longrightarrow> reachable K E (snd (configureAccessPoint s name pw))"
| after_disableAccessPoint: "reachable K E s \<Longrightarrow> reachable K E (snd (disableAccessPoint s))"
| after_addKnownNetwork: "reachable K E s \<Longrightarrow> reachable K E (snd (addKnownNetwork K s name pw))"
| after_setConnectTimeoutMs: "reachable K E s \<Longrightarrow> reachable K E (snd (setConnectTimeoutMs s ms))"
| after_startup: "reachable K E s \<Longrightarrow> startup K E n s = Some (ok, s') \<Longrightarrow> reachable K E s'"

text \<open>No call of \<^verbatim>\<open>_shutdownAccessPoint\<close> is in the log.\<close>

definition no_teardown :: "'w wifibase \<Rightarrow> bool" where
  "no_teardown s = (ShutdownAccessPoint \<notin> set (calls s))"

subsection \<open>The registry as the specification describes it\<close>

text \<open>
  An ordered list of (name, secret) pairs in which no name occurs twice: adding a name
  already there changes nothing, adding a new one appends it.
\<close>

definition spec_add :: "(string \<times> string) list \<Rightarrow> string \<times> string \<Rightarrow> (string \<times> string) list" where
  "spec_add reg c = (if fst c \<in> set (map fst reg) then reg else reg @ [c])"

text \<open>A pair of the list as a written slot.\<close>

definition entry :: "string \<times> string \<Rightarrow> network option" where
  "entry c = Some \<lparr>ssid = fst c, passwd = snd c\<rparr>"

text \<open>The object holds the list \<open>reg\<close>: its first \<open>numKnownNetworks\<close> slots are \<open>reg\<close>.\<close>

definition holds :: "'w wifibase \<Rightarrow> (string \<times> string) list \<Rightarrow> bool" where
  "holds s reg = (wf_registry s \<and> known s = map entry reg)"

subsection \<open>The log of a connection attempt\<close>

text \<open>
  The wait of one attempt as the specification describes it, read off the log after
  the clock reading that starts it. A round queries the status. Connected ends the wait
  with success, a definitive failure ends it with failure. Otherwise the clock is read:
  past the timeout, the attempt is aborted and the wait ends with failure; within it,
  there is a delay of 100 ms and another round.
\<close>

inductive polls :: "32 word \<Rightarrow> 32 word \<Rightarrow> event list \<Rightarrow> bool \<Rightarrow> bool" for timeout start where
  joined: "polls timeout start [Status WL_CONNECTED] True"
| refused: "polls timeout start [Status WL_CONNECT_FAILED] False"
| timed_out:
    "st \<noteq> WL_CONNECTED \<Longrightarrow> st \<noteq> WL_CONNECT_FAILED \<Longrightarrow> now - start > timeout \<Longrightarrow>
     polls timeout start [Status st, Millis now, Esp_wifi_disconnect] False"
| again:
    "st \<noteq> WL_CONNECTED \<Longrightarrow> st \<noteq> WL_CONNECT_FAILED \<Longrightarrow> \<not> now - start > timeout \<Longrightarrow>
     polls timeout start rest ok \<Longrightarrow>
     polls timeout start (Status st # Millis now # Delay 100 # rest) ok"

text \<open>One attempt: the connect request, the clock reading, the wait.\<close>

inductive attempt :: "32 word \<Rightarrow> (string \<times> string) option \<Rightarrow> bool \<Rightarrow> event list \<Rightarrow> bool"
  for timeout where
  "polls timeout start rest ok \<Longrightarrow> attempt timeout cred ok (Begin cred # Millis start # rest)"

text \<open>
  A run of attempts over a list of credentials, in order: it stops at the first attempt
  that succeeds, whose position it gives, and nothing is attempted after it; or every
  attempt fails.
\<close>

inductive tries ::
    "32 word \<Rightarrow> (string \<times> string) option list \<Rightarrow> event list \<Rightarrow> nat option \<Rightarrow> bool"
  for timeout where
  none_left: "tries timeout [] [] None"
| won: "attempt timeout c True evs \<Longrightarrow> tries timeout (c # cs) evs (Some 0)"
| lost:
    "attempt timeout c False evs \<Longrightarrow> tries timeout cs evs' r \<Longrightarrow>
     tries timeout (c # cs) (evs @ evs') (map_option Suc r)"

text \<open>The name and secret held in slot \<open>j\<close>, as \<^verbatim>\<open>WiFi.begin(ssid, passwd)\<close> gets them.\<close>

definition literal :: "'w wifibase \<Rightarrow> nat \<Rightarrow> (string \<times> string) option" where
  "literal s j = (case slot s j of None \<Rightarrow> None | Some e \<Rightarrow> Some (ssid e, passwd e))"

text \<open>
  What entry \<open>j\<close> is attempted with: the radio's stored credential (\<open>None\<close>) for an
  entry 0 with an empty name, the entry's own name and secret otherwise.
\<close>

definition credential :: "'w wifibase \<Rightarrow> nat \<Rightarrow> (string \<times> string) option" where
  "credential s j =
     (case slot s j of
        None \<Rightarrow> None
      | Some e \<Rightarrow> if j = 0 \<and> ssid e = [] then None else Some (ssid e, passwd e))"

definition credentials :: "'w wifibase \<Rightarrow> (string \<times> string) option list" where
  "credentials s = map (credential s) [0..<numKnownNetworks s]"

subsection \<open>A clock that runs\<close>

text \<open>
  Whether the \<^verbatim>\<open>while (true)\<close> of \<^verbatim>\<open>_connectWait\<close> ends is up to the collaborators: a
  status that stays undecided ends the wait only when the clock is seen to pass the
  timeout. What is asked of them is stated on one round of the loop that goes on to the
  next: \<open>clock_reading E w\<close> is what the round that starts in the world \<open>w\<close> reads off
  the clock, after its status query, and \<open>after_round E w\<close> is the world in which its
  \<^verbatim>\<open>delay(100)\<close> returns. The clock is \<open>ticking\<close> when the next round reads a time that
  is at least 100 ms and at most \<open>J\<close> ms later, in the 32 bits of \<^verbatim>\<open>millis()\<close>.
\<close>

definition clock_reading :: "'w collab \<Rightarrow> 'w \<Rightarrow> 32 word" where
  "clock_reading E w = fst (millis E (snd (wifi_status E w)))"

definition after_round :: "'w collab \<Rightarrow> 'w \<Rightarrow> 'w" where
  "after_round E w = delay E 100 (snd (millis E (snd (wifi_status E w))))"

definition ticking :: "'w collab \<Rightarrow> nat \<Rightarrow> bool" where
  "ticking E J =
     (\<forall>w. 100 \<le> unat (clock_reading E (after_round E w) - clock_reading E w) \<and>
          unat (clock_reading E (after_round E w) - clock_reading E w) \<le> J)"

text \<open>
  The number of rounds that is then enough for a wait: the time read grows by 100 ms at
  least from one round to the next, so that one of the first \<open>timeout div 100 + 2\<close>
  rounds finds the status decided or the timeout passed. This is the fuel the theorems
  give to \<^verbatim>\<open>_connectWait\<close>.
\<close>

definition rounds :: "'w wifibase \<Rightarrow> nat" where
  "rounds s = unat (connectionTimeoutMs s) div 100 + 2"

subsection \<open>Concrete inputs\<close>

text \<open>A freshly constructed device without networks or portal, before and after \<^verbatim>\<open>startup()\<close>.\<close>

definition idle_device :: "simworld wifibase" where
  "idle_device = WiFiBase (hdr 8) (sim (only ''B'')) False sim_idle"

definition idle_failed :: "simworld wifibase" where
  "idle_failed = (initial_fields (hdr 8) sim_idle)\<lparr>calls := [Status WL_IDLE_STATUS]\<rparr>"

text \<open>
  A device with an empty registry whose portal is set up as \<open>Setup\<close>, and whose user
  will enter the network \<open>NewNet\<close> there.
\<close>

definition portal_world :: simworld where
  "portal_world = sim_idle\<lparr>sim_portal := Some (''NewNet'', ''secret1'')\<rparr>"

definition portal_device :: "simworld wifibase" where
  "portal_device =
     snd (configureAccessPoint (WiFiBase (hdr 8) (sim (only ''B'')) False portal_world)
            (Some ''Setup'') (Some ''setup-pw''))"

definition portal_joined :: "simworld wifibase" where
  "portal_joined =
     \<lparr>background = True, APSsid = Some ''Setup'', APPasswd = Some ''setup-pw'', running = False,
      accessPointEnabled = True, accessPointActive = False,
      numKnownNetworks = 1, allocatedKnownNetworks = 2,
      knownNetworks = [Some \<lparr>ssid = ''NewNet'', passwd = ''secret1''\<rparr>, None],
      connectionTimeoutMs = 10000, connectedIndex = 0,
      world = portal_world,
      calls = [Status WL_IDLE_STATUS, StartConfigPortal (Some ''Setup'') (Some ''setup-pw'') True]\<rparr>"

definition six_calls :: "(string \<times> string) list" where
  "six_calls = [(''A'', ''a''), (''B'', ''b''), (''A'', ''x''), (''C'', ''c''), (''D'', ''d''), (''E'', ''e'')]"

text \<open>A registry with room for two networks, holding two.\<close>

definition full_two :: "simworld wifibase" where
  "full_two =
     snd (add_all (hdr 2) (WiFiBase (hdr 2) (sim (only ''B'')) False sim_idle)
            [(''A'', ''a''), (''B'', ''b'')])"

text \<open>
  With a maximum of 3 the registry takes a fourth network: when the third is in, the
  block of 4 is not full, and the maximum is not looked at.
\<close>

definition full_three :: "simworld wifibase" where
  "full_three =
     snd (add_all (hdr 3) (WiFiBase (hdr 3) (sim (only ''B'')) False sim_idle)
            [(''A'', ''a''), (''B'', ''b''), (''C'', ''c'')])"




text \<open>
  A device that is told of \<open>A\<close>, \<open>B\<close> and \<open>C\<close>, in this order, where only \<open>B\<close> can be
  joined; \<open>abc_joined\<close> is the device after \<^verbatim>\<open>startup()\<close>.
\<close>

definition abc_device :: "simworld wifibase" where
  "abc_device =
     snd (add_all (hdr 8) (WiFiBase (hdr 8) (sim (only ''B'')) False sim_idle)
            [(''A'', ''a''), (''B'', ''b''), (''C'', ''c'')])"

definition abc_joined :: "simworld wifibase" where
  "abc_joined = abc_device
     \<lparr>connectedIndex := 1,
      world := sim_idle\<lparr>sim_link := WL_CONNECTED\<rparr>,
      calls := [Status WL_IDLE_STATUS,
                Begin (Some (''A'', ''a'')), Millis 0, Status WL_CONNECT_FAILED,
                Begin (Some (''B'', ''b'')), Millis 0, Status WL_CONNECTED]\<rparr>"

text \<open>
  A device built with the radio holding a credential, so that entry 0 is the empty
  name, and told of \<open>B\<close> besides; the stored credential is refused, \<open>B\<close> can be joined.
\<close>

definition stored_device :: "simworld wifibase" where
  "stored_device =
     snd (addKnownNetwork (hdr 8)
            (WiFiBase (hdr 8) (sim (only ''B'')) True (sim_idle\<lparr>sim_stored := True\<rparr>)) ''B'' ''b'')"

definition stored_joined :: "simworld wifibase" where
  "stored_joined = stored_device
     \<lparr>connectedIndex := 1,
      world := sim_idle\<lparr>sim_stored := True, sim_link := WL_CONNECTED\<rparr>,
      calls := [Status WL_IDLE_STATUS,
                Begin None, Millis 0, Status WL_CONNECT_FAILED,
                Begin (Some (''B'', ''b'')), Millis 0, Status WL_CONNECTED]\<rparr>"

text \<open>
  A header with room for 512 networks and a device that is told of 257 of them, named
  \<open>n\<close>, \<open>nn\<close>, \<open>nnn\<close> and so on, of which only the last, at index 256, can be joined.
  \<open>many_joined\<close> is the device after \<^verbatim>\<open>startup()\<close>: 256 attempts that are refused, the
  attempt of the last network, and 0 as the connected index.
\<close>

definition net :: "nat \<Rightarrow> string" where
  "net i = replicate (Suc i) CHR ''n''"

definition many_device :: "simworld wifibase" where
  "many_device =
     snd (add_all (hdr 512) (WiFiBase (hdr 512) (sim (only (net 256))) False sim_idle)
            (map (\<lambda>i. (net i, ''pw'')) [0..<257]))"

definition many_joined :: "simworld wifibase" where
  "many_joined = many_device
     \<lparr>connectedIndex := 0,
      world := sim_idle\<lparr>sim_link := WL_CONNECTED\<rparr>,
      calls := Status WL_IDLE_STATUS #
        concat (map (\<lambda>i. [Begin (Some (net i, ''pw'')), Millis 0, Status WL_CONNECT_FAILED]) [0..<256]) @
        [Begin (Some (net 256, ''pw'')), Millis 0, Status WL_CONNECTED]\<rparr>"

text \<open>
  A registry with room for two networks that holds \<open>A\<close> and \<open>B\<close>, neither of which can
  be joined, the portal enabled; the user enters \<open>NewNet\<close> there.
\<close>

definition full_portal_device :: "simworld wifibase" where
  "full_portal_device =
     snd (configureAccessPoint
            (snd (add_all (hdr 2) (WiFiBase (hdr 2) (sim (only ''X'')) False portal_world)
                    [(''A'', ''a''), (''B'', ''b'')]))
            (Some ''Setup'') (Some ''setup-pw''))"

section \<open>Properties\<close>

subsection \<open>What a connection attempt leaves unchanged\<close>

lemma same_fields_refl: "same_fields s s"
  by (simp add: same_fields_def)

lemma same_fields_trans: "same_fields s s1 \<Longrightarrow> same_fields s1 s2 \<Longrightarrow> same_fields s s2"
  by (simp add: same_fields_def)

lemma same_fields_WiFi_status: "WiFi_status E s = (st, s1) \<Longrightarrow> same_fields s s1"
  by (auto simp: WiFi_status_def same_fields_def split: prod.splits)

lemma same_fields_call_millis: "call_millis E s = (t, s1) \<Longrightarrow> same_fields s s1"
  by (auto simp: call_millis_def same_fields_def split: prod.splits)

lemma same_fields_WiFi_begin: "same_fields s (WiFi_begin E cred s)"
  by (simp add: WiFi_begin_def same_fields_def)

lemma same_fields_call_delay: "same_fields s (call_delay E ms s)"
  by (simp add: call_delay_def same_fields_def)

lemma same_fields_call_esp_wifi_disconnect: "same_fields s (call_esp_wifi_disconnect E s)"
  by (simp add: call_esp_wifi_disconnect_def same_fields_def)

lemma connectWait_loop_frame:
  "connectWait_loop E n start s = Some (ok, s') \<Longrightarrow> same_fields s s'"
proof (induction n arbitrary: s)
  case 0
  then show ?case by simp
next
  case (Suc n)
  obtain st s1 where st: "WiFi_status E s = (st, s1)" by (cases "WiFi_status E s")
  obtain now s2 where now: "call_millis E s1 = (now, s2)" by (cases "call_millis E s1")
  have s2: "same_fields s s2"
    using same_fields_WiFi_status [OF st] same_fields_call_millis [OF now]
    by (rule same_fields_trans)
  show ?case
  proof (cases "st = WL_CONNECTED \<or> st = WL_CONNECT_FAILED")
    case True
    then have "s' = s1" using Suc.prems st by auto
    then show ?thesis using same_fields_WiFi_status [OF st] by simp
  next
    case False
    show ?thesis
    proof (cases "now - start > connectionTimeoutMs s2")
      case True
      then have "s' = call_esp_wifi_disconnect E s2"
        using Suc.prems st now False by auto
      then show ?thesis
        using s2 same_fields_call_esp_wifi_disconnect [of s2 E] same_fields_trans by blast
    next
      case nt: False
      then have "connectWait_loop E n start (call_delay E 100 s2) = Some (ok, s')"
        using Suc.prems st now False by auto
      from Suc.IH [OF this] show ?thesis
        using s2 same_fields_call_delay [of s2 E 100] same_fields_trans by blast
    qed
  qed
qed

lemma connectWait_frame: "connectWait E n s = Some (ok, s') \<Longrightarrow> same_fields s s'"
proof -
  assume a: "connectWait E n s = Some (ok, s')"
  obtain start s0 where m: "call_millis E s = (start, s0)" by (cases "call_millis E s")
  with a have "connectWait_loop E n start s0 = Some (ok, s')" by (simp add: connectWait_def)
  from connectWait_loop_frame [OF this] same_fields_call_millis [OF m] show ?thesis
    using same_fields_trans by blast
qed

subsection \<open>Lookup and insertion\<close>

lemma lookup_loop_absent:
  "(\<And>j. i \<le> j \<Longrightarrow> j < numKnownNetworks s \<Longrightarrow> \<not> ssid_matches s j name) \<Longrightarrow>
   lookup_loop K s name i = INDEX_DISCONNECTED K"
proof (induction K s name i rule: lookup_loop.induct)
  case (1 K s name i)
  show ?case
  proof (cases "i < numKnownNetworks s")
    case True
    then have nm: "\<not> ssid_matches s i name" using "1.prems" by simp
    have "lookup_loop K s name (Suc i) = INDEX_DISCONNECTED K"
      using "1.IH" [OF True nm] "1.prems" by simp
    then show ?thesis using True nm by (subst lookup_loop.simps) simp
  next
    case False
    then show ?thesis by (subst lookup_loop.simps) simp
  qed
qed

lemma lookup_loop_first:
  "i \<le> j \<Longrightarrow> j < numKnownNetworks s \<Longrightarrow> ssid_matches s j name \<Longrightarrow>
   (\<And>k. i \<le> k \<Longrightarrow> k < j \<Longrightarrow> \<not> ssid_matches s k name) \<Longrightarrow>
   lookup_loop K s name i = int j"
proof (induction K s name i rule: lookup_loop.induct)
  case (1 K s name i)
  have lt: "i < numKnownNetworks s" using "1.prems" by simp
  show ?case
  proof (cases "ssid_matches s i name")
    case True
    have "\<not> i < j" using "1.prems"(4) [of i] True by auto
    then have "i = j" using "1.prems"(1) by simp
    then show ?thesis using lt True by (subst lookup_loop.simps) simp
  next
    case False
    then have "i \<noteq> j" using "1.prems"(3) by auto
    then have "Suc i \<le> j" using "1.prems"(1) by simp
    then have "lookup_loop K s name (Suc i) = int j"
      using "1.IH" [OF lt False] "1.prems" by simp
    then show ?thesis using lt False by (subst lookup_loop.simps) simp
  qed
qed

lemma lookup_absent:
  "\<not> present s name \<Longrightarrow> lookupKnownNetwork K s name = INDEX_DISCONNECTED K"
  unfolding lookupKnownNetwork_def present_def
  by (rule lookup_loop_absent) blast

lemma lookup_present:
  assumes "present s name"
  shows "\<exists>j<numKnownNetworks s. ssid_matches s j name \<and> lookupKnownNetwork K s name = int j"
proof -
  obtain i where i: "i < numKnownNetworks s \<and> ssid_matches s i name"
    using assms unfolding present_def by blast
  define j where "j = (LEAST j. j < numKnownNetworks s \<and> ssid_matches s j name)"
  have j: "j < numKnownNetworks s \<and> ssid_matches s j name"
    unfolding j_def using i by (rule LeastI)
  have least: "\<not> ssid_matches s k name" if "k < j" for k
  proof
    assume "ssid_matches s k name"
    then have "k < numKnownNetworks s \<and> ssid_matches s k name" using j that by simp
    then have "j \<le> k" unfolding j_def by (rule Least_le)
    then show False using that by simp
  qed
  have "lookup_loop K s name 0 = int j"
    by (rule lookup_loop_first) (use j least in simp_all)
  then show ?thesis using j unfolding lookupKnownNetwork_def by blast
qed

lemma has_present:
  "present s name \<Longrightarrow> valid_sentinel K (numKnownNetworks s) \<Longrightarrow> hasKnownNetwork K s name"
  using lookup_present [of s name K] by (auto simp: hasKnownNetwork_def valid_sentinel_def)

lemma has_absent: "\<not> present s name \<Longrightarrow> \<not> hasKnownNetwork K s name"
  by (simp add: hasKnownNetwork_def lookup_absent)

lemma addKnownNetwork_settings: "same_settings s (snd (addKnownNetwork K s name pw))"
  by (simp add: addKnownNetwork_def store_entry_def same_settings_def Let_def)

lemma wf_registry_empty:
  "wf_registry s \<Longrightarrow> allocatedKnownNetworks s = 0 \<Longrightarrow> numKnownNetworks s = 0 \<and> known s = []"
  by (simp add: wf_registry_def known_def)

lemma addKnownNetwork_first:
  assumes "allocatedKnownNetworks s = 0"
  shows "fst (addKnownNetwork K s name pw)"
    and "numKnownNetworks (snd (addKnownNetwork K s name pw)) = 1"
    and "allocatedKnownNetworks (snd (addKnownNetwork K s name pw)) = 2"
    and "knownNetworks (snd (addKnownNetwork K s name pw)) = [Some \<lparr>ssid = name, passwd = pw\<rparr>, None]"
  using assms by (simp_all add: addKnownNetwork_def store_entry_def malloc_def numeral_2_eq_2)

lemma addKnownNetwork_room:
  assumes "allocatedKnownNetworks s \<noteq> 0" "\<not> hasKnownNetwork K s name"
    and "numKnownNetworks s \<noteq> allocatedKnownNetworks s"
  shows "fst (addKnownNetwork K s name pw)"
    and "numKnownNetworks (snd (addKnownNetwork K s name pw)) = numKnownNetworks s + 1"
    and "allocatedKnownNetworks (snd (addKnownNetwork K s name pw)) = allocatedKnownNetworks s"
    and "knownNetworks (snd (addKnownNetwork K s name pw)) =
           (knownNetworks s)[numKnownNetworks s := Some \<lparr>ssid = name, passwd = pw\<rparr>]"
  using assms by (simp_all add: addKnownNetwork_def store_entry_def)

lemma addKnownNetwork_grow:
  assumes "allocatedKnownNetworks s \<noteq> 0" "\<not> hasKnownNetwork K s name"
    and "numKnownNetworks s = allocatedKnownNetworks s"
    and "numKnownNetworks s < MAX_KNOWN_NETWORKS K"
    and "length (knownNetworks s) = allocatedKnownNetworks s"
    and "allocatedKnownNetworks s * 2 < 65536"
  shows "fst (addKnownNetwork K s name pw)"
    and "numKnownNetworks (snd (addKnownNetwork K s name pw)) = numKnownNetworks s + 1"
    and "allocatedKnownNetworks (snd (addKnownNetwork K s name pw)) = allocatedKnownNetworks s * 2"
    and "knownNetworks (snd (addKnownNetwork K s name pw)) =
           knownNetworks s @ Some \<lparr>ssid = name, passwd = pw\<rparr> #
             replicate (allocatedKnownNetworks s - 1) None"
proof -
  let ?a = "allocatedKnownNetworks s"
  have a: "0 < ?a" using assms(1) by simp
  have grown: "(take ?a (knownNetworks s) @ drop ?a (replicate (?a * 2) None))
                 [?a := Some \<lparr>ssid = name, passwd = pw\<rparr>]
               = knownNetworks s @ Some \<lparr>ssid = name, passwd = pw\<rparr> # replicate (?a - 1) None"
  proof -
    have "drop ?a (replicate (?a * 2) (None :: network option)) = replicate ?a None"
      by simp
    also have "\<dots> = None # replicate (?a - 1) None"
      using a by (cases ?a) simp_all
    finally show ?thesis using assms(5) by (simp add: list_update_append)
  qed
  show "fst (addKnownNetwork K s name pw)"
    using assms by (simp add: addKnownNetwork_def Let_def)
  show "numKnownNetworks (snd (addKnownNetwork K s name pw)) = numKnownNetworks s + 1"
    using assms by (simp add: addKnownNetwork_def Let_def store_entry_def)
  show "allocatedKnownNetworks (snd (addKnownNetwork K s name pw)) = ?a * 2"
    using assms by (simp add: addKnownNetwork_def Let_def store_entry_def)
  show "knownNetworks (snd (addKnownNetwork K s name pw)) =
           knownNetworks s @ Some \<lparr>ssid = name, passwd = pw\<rparr> # replicate (?a - 1) None"
    using assms grown by (simp add: addKnownNetwork_def Let_def store_entry_def malloc_def memcpy_def)
qed

lemma addKnownNetwork_full:
  assumes "allocatedKnownNetworks s \<noteq> 0" "\<not> hasKnownNetwork K s name"
    and "numKnownNetworks s = allocatedKnownNetworks s"
    and "MAX_KNOWN_NETWORKS K \<le> numKnownNetworks s"
  shows "addKnownNetwork K s name pw = (False, s)"
  using assms by (simp add: addKnownNetwork_def)

lemma addKnownNetwork_known:
  assumes "allocatedKnownNetworks s \<noteq> 0" "hasKnownNetwork K s name"
  shows "addKnownNetwork K s name pw = (True, s)"
  using assms by (simp add: addKnownNetwork_def)

text \<open>A name not found, with room left or room to grow into, is appended after the entries held.\<close>

lemma addKnownNetwork_appends:
  assumes wf: "wf_registry s" and nh: "\<not> hasKnownNetwork K s name"
    and room: "allocatedKnownNetworks s = 0 \<or> numKnownNetworks s < allocatedKnownNetworks s \<or>
               numKnownNetworks s < MAX_KNOWN_NETWORKS K"
    and small: "numKnownNetworks s = allocatedKnownNetworks s \<longrightarrow> allocatedKnownNetworks s * 2 < 65536"
  shows "fst (addKnownNetwork K s name pw)"
    and "known (snd (addKnownNetwork K s name pw)) = known s @ [Some \<lparr>ssid = name, passwd = pw\<rparr>]"
    and "numKnownNetworks (snd (addKnownNetwork K s name pw)) = numKnownNetworks s + 1"
    and "wf_registry (snd (addKnownNetwork K s name pw))"
    and "allocatedKnownNetworks (snd (addKnownNetwork K s name pw)) =
           (if allocatedKnownNetworks s = 0 then 2
            else if numKnownNetworks s = allocatedKnownNetworks s then allocatedKnownNetworks s * 2
            else allocatedKnownNetworks s)"
proof -
  let ?r = "addKnownNetwork K s name pw" and ?e = "Some \<lparr>ssid = name, passwd = pw\<rparr>"
  have len: "length (knownNetworks s) = allocatedKnownNetworks s"
    and le: "numKnownNetworks s \<le> allocatedKnownNetworks s"
    and init: "None \<notin> set (known s)"
    using wf by (simp_all add: wf_registry_def)
  consider (first) "allocatedKnownNetworks s = 0"
    | (grow) "allocatedKnownNetworks s \<noteq> 0" "numKnownNetworks s = allocatedKnownNetworks s"
    | (room) "allocatedKnownNetworks s \<noteq> 0" "numKnownNetworks s \<noteq> allocatedKnownNetworks s"
    by blast
  then have "fst ?r \<and> known (snd ?r) = known s @ [?e] \<and>
      numKnownNetworks (snd ?r) = numKnownNetworks s + 1 \<and>
      length (knownNetworks (snd ?r)) = allocatedKnownNetworks (snd ?r) \<and>
      numKnownNetworks (snd ?r) \<le> allocatedKnownNetworks (snd ?r) \<and>
      allocatedKnownNetworks (snd ?r) =
           (if allocatedKnownNetworks s = 0 then 2
            else if numKnownNetworks s = allocatedKnownNetworks s then allocatedKnownNetworks s * 2
            else allocatedKnownNetworks s)"
  proof cases
    case first
    then have "numKnownNetworks s = 0" "known s = []" using wf wf_registry_empty by blast+
    then show ?thesis using addKnownNetwork_first [OF first, of K name pw] first
      by (simp add: known_def)
  next
    case grow
    then have lt: "numKnownNetworks s < MAX_KNOWN_NETWORKS K" using room by simp
    have sm: "allocatedKnownNetworks s * 2 < 65536" using small grow by simp
    have k: "known s = knownNetworks s" using grow len by (simp add: known_def)
    show ?thesis
      using addKnownNetwork_grow [OF grow(1) nh grow(2) lt len sm, of pw] grow len k
      by (simp add: known_def)
  next
    case room
    then have lt: "numKnownNetworks s < length (knownNetworks s)" using le len by simp
    show ?thesis
      using addKnownNetwork_room [OF room(1) nh room(2), of pw] room lt len
      by (simp add: known_def take_Suc_conv_app_nth)
  qed
  then show "fst ?r" and "known (snd ?r) = known s @ [?e]"
    and "numKnownNetworks (snd ?r) = numKnownNetworks s + 1"
    and "wf_registry (snd ?r)"
    and "allocatedKnownNetworks (snd ?r) =
           (if allocatedKnownNetworks s = 0 then 2
            else if numKnownNetworks s = allocatedKnownNetworks s then allocatedKnownNetworks s * 2
            else allocatedKnownNetworks s)"
    using init by (simp_all add: wf_registry_def)
qed

subsection \<open>Frames of the orchestrator\<close>

lemma same_fields_config: "same_fields s s' \<Longrightarrow> same_config s s' \<and> same_registry s s'"
  by (simp add: same_fields_def same_config_def same_registry_def)

lemma same_config_trans: "same_config s s1 \<Longrightarrow> same_config s1 s2 \<Longrightarrow> same_config s s2"
  by (simp add: same_config_def)

lemma same_registry_trans: "same_registry s s1 \<Longrightarrow> same_registry s1 s2 \<Longrightarrow> same_registry s s2"
  by (simp add: same_registry_def)

lemma same_setConnected: "same_config s (setConnected i s) \<and> same_registry s (setConnected i s)"
  by (simp add: same_config_def same_registry_def setConnected_def)

lemma same_setDisconnected: "same_config s (setDisconnected K s) \<and> same_registry s (setDisconnected K s)"
  by (simp add: same_config_def same_registry_def setDisconnected_def)

lemma attempt_frame:
  assumes "connectWait E n (WiFi_begin E cred s) = Some (ok, s')"
  shows "same_config s s' \<and> same_registry s s'"
  using connectWait_frame [OF assms] same_fields_WiFi_begin [of s E cred]
  by (simp add: same_fields_def same_config_def same_registry_def)

lemma connect_loop_frame:
  "connect_loop E n index s = Some (ok, s') \<Longrightarrow> same_config s s' \<and> same_registry s s'"
proof (induction E n index s rule: connect_loop.induct)
  case (1 E n index s)
  show ?case
  proof (cases "index < numKnownNetworks s")
    case False
    then have "s' = s" using "1.prems" by (simp add: connect_loop.simps)
    then show ?thesis by (simp add: same_config_def same_registry_def)
  next
    case True
    then obtain e where e: "slot s index = Some e"
      using "1.prems" by (cases "slot s index") (simp_all add: connect_loop.simps)
    let ?b = "WiFi_begin E (Some (ssid e, passwd e)) s"
    obtain ok1 s1 where w: "connectWait E n ?b = Some (ok1, s1)"
      using "1.prems" True e by (cases "connectWait E n ?b") (auto simp: connect_loop.simps)
    note f = attempt_frame [OF w]
    show ?thesis
    proof (cases ok1)
      case True
      then have "s' = setConnected (int index) s1"
        using "1.prems" \<open>index < numKnownNetworks s\<close> e w by (simp add: connect_loop.simps)
      then show ?thesis
        using f same_setConnected [of s1 "int index"] same_config_trans same_registry_trans
        by blast
    next
      case False
      then have r: "connect_loop E n (Suc index) s1 = Some (ok, s')"
        using "1.prems" True e w by (simp add: connect_loop.simps)
      have "same_config s1 s' \<and> same_registry s1 s'"
        using "1.IH" [OF True e w _ False r] by simp
      then show ?thesis using f same_config_trans same_registry_trans by blast
    qed
  qed
qed

lemma connectToNetwork_cases:
  assumes "connectToNetwork K E n s = Some (ok, s')" and "WiFi_status E s = (st, s0)"
  obtains
    (already) "st = WL_CONNECTED" "ok" "s' = s0"
  | (empty) "st \<noteq> WL_CONNECTED" "numKnownNetworks s0 = 0" "\<not> ok" "s' = setDisconnected K s0"
  | (stored_ok) e s1 where "st \<noteq> WL_CONNECTED" "numKnownNetworks s0 \<noteq> 0" "slot s0 0 = Some e"
      "ssid e = []" "connectWait E n (WiFi_begin E None s0) = Some (True, s1)"
      "ok" "s' = setConnected 0 s1"
  | (stored_fail) e s1 s2 where "st \<noteq> WL_CONNECTED" "numKnownNetworks s0 \<noteq> 0"
      "slot s0 0 = Some e" "ssid e = []"
      "connectWait E n (WiFi_begin E None s0) = Some (False, s1)"
      "connect_loop E n 1 s1 = Some (ok, s2)"
      "s' = (if ok then s2 else setDisconnected K s2)"
  | (literal) e s2 where "st \<noteq> WL_CONNECTED" "numKnownNetworks s0 \<noteq> 0" "slot s0 0 = Some e"
      "ssid e \<noteq> []" "connect_loop E n 0 s0 = Some (ok, s2)"
      "s' = (if ok then s2 else setDisconnected K s2)"
  using assms
  by (auto simp: connectToNetwork_def split: if_splits option.splits prod.splits)

lemma connectToNetwork_frame:
  assumes "connectToNetwork K E n s = Some (ok, s')"
  shows "same_config s s' \<and> same_registry s s'"
proof -
  obtain st s0 where st: "WiFi_status E s = (st, s0)" by (cases "WiFi_status E s")
  have f0: "same_config s s0 \<and> same_registry s s0"
    using same_fields_WiFi_status [OF st] by (rule same_fields_config)
  from assms st have "same_config s0 s' \<and> same_registry s0 s'"
  proof (cases rule: connectToNetwork_cases)
    case already
    then show ?thesis by (simp add: same_config_def same_registry_def)
  next
    case empty
    then show ?thesis using same_setDisconnected by blast
  next
    case (stored_ok e s1)
    then show ?thesis
      using attempt_frame [of E n None s0 True s1] same_setConnected [of s1 0]
        same_config_trans same_registry_trans by blast
  next
    case (stored_fail e s1 s2)
    have "same_config s0 s2 \<and> same_registry s0 s2"
      using attempt_frame [OF stored_fail(5)] connect_loop_frame [OF stored_fail(6)]
        same_config_trans same_registry_trans by blast
    then show ?thesis
      using stored_fail(7) same_setDisconnected [of s2 K] same_config_trans same_registry_trans
      by (cases ok) auto
  next
    case (literal e s2)
    have "same_config s0 s2 \<and> same_registry s0 s2"
      using connect_loop_frame [OF literal(5)] .
    then show ?thesis
      using literal(6) same_setDisconnected [of s2 K] same_config_trans same_registry_trans
      by (cases ok) auto
  qed
  then show ?thesis using f0 same_config_trans same_registry_trans by blast
qed

lemma startupAccessPoint_cases:
  assumes "startupAccessPoint K E s = (ok, s')"
    and "call_startConfigPortal E (APSsid s) (APPasswd s) s = (p, s1)"
  obtains
    (failed) "\<not> p" "\<not> ok" "s' = s1"
  | (known) "p" "ok" "lookupKnownNetwork K s1 (getSSID E (world s1)) \<noteq> INDEX_DISCONNECTED K"
      "s' = setConnected (lookupKnownNetwork K s1 (getSSID E (world s1))) s1"
  | (learned) added s2 where "p" "ok"
      "lookupKnownNetwork K s1 (getSSID E (world s1)) = INDEX_DISCONNECTED K"
      "addKnownNetwork K s1 (getSSID E (world s1)) (getPassword E (world s1)) = (added, s2)"
      "s' = setConnected (int (numKnownNetworks s2) - 1) s2"
  using assms
  by (auto simp: startupAccessPoint_def Let_def split: if_splits prod.splits)

lemma startup_cases:
  assumes "startup K E n s = Some (ok, s')"
  obtains
    (joined) "connectToNetwork K E n s = Some (True, s')" "ok"
  | (no_portal) "connectToNetwork K E n s = Some (False, s')" "\<not> accessPointEnabled s'" "\<not> ok"
  | (portal) s1 where "connectToNetwork K E n s = Some (False, s1)" "accessPointEnabled s1"
      "startupAccessPoint K E s1 = (ok, s')"
  using assms
  by (auto simp: startup_def split: if_splits option.splits prod.splits)

lemma same_call_startConfigPortal:
  "call_startConfigPortal E a b s = (p, s1) \<Longrightarrow> same_fields s s1"
  by (auto simp: call_startConfigPortal_def same_fields_def split: prod.splits)

subsection \<open>No teardown of the access point is logged\<close>

lemma no_teardown_WiFi_status: "WiFi_status E s = (st, s1) \<Longrightarrow> no_teardown s1 = no_teardown s"
  by (auto simp: WiFi_status_def no_teardown_def split: prod.splits)

lemma no_teardown_call_millis: "call_millis E s = (t, s1) \<Longrightarrow> no_teardown s1 = no_teardown s"
  by (auto simp: call_millis_def no_teardown_def split: prod.splits)

lemma no_teardown_simps [simp]:
  "no_teardown (WiFi_begin E cred s) = no_teardown s"
  "no_teardown (call_delay E ms s) = no_teardown s"
  "no_teardown (call_esp_wifi_disconnect E s) = no_teardown s"
  "no_teardown (setConnected i s) = no_teardown s"
  "no_teardown (setDisconnected K s) = no_teardown s"
  by (simp_all add: no_teardown_def WiFi_begin_def call_delay_def call_esp_wifi_disconnect_def
        setConnected_def setDisconnected_def)

lemma connectWait_loop_no_teardown:
  "connectWait_loop E n start s = Some (ok, s') \<Longrightarrow> no_teardown s' = no_teardown s"
proof (induction n arbitrary: s)
  case 0
  then show ?case by simp
next
  case (Suc n)
  obtain st s1 where st: "WiFi_status E s = (st, s1)" by (cases "WiFi_status E s")
  obtain now s2 where now: "call_millis E s1 = (now, s2)" by (cases "call_millis E s1")
  have s2: "no_teardown s2 = no_teardown s" "no_teardown s1 = no_teardown s"
    using no_teardown_WiFi_status [OF st] no_teardown_call_millis [OF now] by simp_all
  show ?case
  proof (cases "st = WL_CONNECTED \<or> st = WL_CONNECT_FAILED")
    case True
    then have "s' = s1" using Suc.prems st by auto
    then show ?thesis using s2 by simp
  next
    case False
    show ?thesis
    proof (cases "now - start > connectionTimeoutMs s2")
      case True
      then have "s' = call_esp_wifi_disconnect E s2"
        using Suc.prems st now False by auto
      then show ?thesis using s2 by simp
    next
      case nt: False
      then have "connectWait_loop E n start (call_delay E 100 s2) = Some (ok, s')"
        using Suc.prems st now False by auto
      from Suc.IH [OF this] show ?thesis using s2 by simp
    qed
  qed
qed

lemma attempt_no_teardown:
  assumes "connectWait E n (WiFi_begin E cred s) = Some (ok, s')"
  shows "no_teardown s' = no_teardown s"
proof -
  let ?b = "WiFi_begin E cred s"
  obtain start s0 where m: "call_millis E ?b = (start, s0)" by (cases "call_millis E ?b")
  with assms have "connectWait_loop E n start s0 = Some (ok, s')" by (simp add: connectWait_def)
  from connectWait_loop_no_teardown [OF this] no_teardown_call_millis [OF m]
  show ?thesis by simp
qed

lemma connect_loop_no_teardown:
  "connect_loop E n index s = Some (ok, s') \<Longrightarrow> no_teardown s' = no_teardown s"
proof (induction E n index s rule: connect_loop.induct)
  case (1 E n index s)
  show ?case
  proof (cases "index < numKnownNetworks s")
    case False
    then have "s' = s" using "1.prems" by (simp add: connect_loop.simps)
    then show ?thesis by simp
  next
    case True
    then obtain e where e: "slot s index = Some e"
      using "1.prems" by (cases "slot s index") (simp_all add: connect_loop.simps)
    let ?b = "WiFi_begin E (Some (ssid e, passwd e)) s"
    obtain ok1 s1 where w: "connectWait E n ?b = Some (ok1, s1)"
      using "1.prems" True e by (cases "connectWait E n ?b") (auto simp: connect_loop.simps)
    note f = attempt_no_teardown [OF w]
    show ?thesis
    proof (cases ok1)
      case True
      then have "s' = setConnected (int index) s1"
        using "1.prems" \<open>index < numKnownNetworks s\<close> e w by (simp add: connect_loop.simps)
      then show ?thesis using f by simp
    next
      case False
      then have r: "connect_loop E n (Suc index) s1 = Some (ok, s')"
        using "1.prems" True e w by (simp add: connect_loop.simps)
      have "no_teardown s' = no_teardown s1"
        using "1.IH" [OF True e w _ False r] by simp
      then show ?thesis using f by simp
    qed
  qed
qed

lemma connectToNetwork_no_teardown:
  assumes "connectToNetwork K E n s = Some (ok, s')"
  shows "no_teardown s' = no_teardown s"
proof -
  obtain st s0 where st: "WiFi_status E s = (st, s0)" by (cases "WiFi_status E s")
  note f0 = no_teardown_WiFi_status [OF st]
  from assms st have "no_teardown s' = no_teardown s0"
  proof (cases rule: connectToNetwork_cases)
    case already
    then show ?thesis by simp
  next
    case empty
    then show ?thesis by simp
  next
    case (stored_ok e s1)
    then show ?thesis using attempt_no_teardown [of E n None s0 True s1] by simp
  next
    case (stored_fail e s1 s2)
    then show ?thesis
      using attempt_no_teardown [OF stored_fail(5)] connect_loop_no_teardown [OF stored_fail(6)]
      by (cases ok) simp_all
  next
    case (literal e s2)
    then show ?thesis
      using connect_loop_no_teardown [OF literal(5)] by (cases ok) simp_all
  qed
  then show ?thesis using f0 by simp
qed

lemma addKnownNetwork_no_teardown: "no_teardown (snd (addKnownNetwork K s name pw)) = no_teardown s"
  using addKnownNetwork_settings [of s K name pw] by (simp add: same_settings_def no_teardown_def)

lemma startupAccessPoint_frame:
  assumes "startupAccessPoint K E s = (ok, s')"
  shows "same_config s s'" and "no_teardown s' = no_teardown s"
proof -
  obtain p s1 where p: "call_startConfigPortal E (APSsid s) (APPasswd s) s = (p, s1)"
    by (cases "call_startConfigPortal E (APSsid s) (APPasswd s) s")
  have c1: "same_config s s1" using same_call_startConfigPortal [OF p] same_fields_config by blast
  have n1: "no_teardown s1 = no_teardown s"
    using p by (auto simp: call_startConfigPortal_def no_teardown_def split: prod.splits)
  from assms p have "same_config s1 s' \<and> no_teardown s' = no_teardown s1"
  proof (cases rule: startupAccessPoint_cases)
    case failed
    then show ?thesis by (simp add: same_config_def)
  next
    case known
    then show ?thesis using same_setConnected by auto
  next
    case (learned added s2)
    have "same_config s1 s2"
      using addKnownNetwork_settings [of s1 K "getSSID E (world s1)" "getPassword E (world s1)"]
        learned(4) by (simp add: same_settings_def same_config_def)
    moreover have "no_teardown s2 = no_teardown s1"
      using addKnownNetwork_no_teardown [of K s1 "getSSID E (world s1)" "getPassword E (world s1)"]
        learned(4) by simp
    ultimately show ?thesis
      using learned(5) same_setConnected [of s2] same_config_trans by auto
  qed
  then show "same_config s s'" and "no_teardown s' = no_teardown s"
    using c1 n1 same_config_trans by auto
qed

lemma startup_frame:
  assumes "startup K E n s = Some (ok, s')"
  shows "same_config s s'" and "no_teardown s' = no_teardown s"
proof -
  from assms have "same_config s s' \<and> no_teardown s' = no_teardown s"
  proof (cases rule: startup_cases)
    case joined
    then show ?thesis using connectToNetwork_frame connectToNetwork_no_teardown by blast
  next
    case no_portal
    then show ?thesis using connectToNetwork_frame connectToNetwork_no_teardown by blast
  next
    case (portal s1)
    then show ?thesis
      using connectToNetwork_frame [OF portal(1)] connectToNetwork_no_teardown [OF portal(1)]
        startupAccessPoint_frame [OF portal(3)] same_config_trans by auto
  qed
  then show "same_config s s'" and "no_teardown s' = no_teardown s" by simp_all
qed

text \<open>Nothing sets \<^verbatim>\<open>_running\<close> or \<^verbatim>\<open>_accessPointActive\<close>, and no teardown is ever tried.\<close>

lemma reachable_flags:
  "reachable K E s \<Longrightarrow> \<not> running s \<and> \<not> accessPointActive s \<and> no_teardown s"
proof (induction rule: reachable.induct)
  case (constructed useStored w)
  have f: "\<not> running (initial_fields K w) \<and> \<not> accessPointActive (initial_fields K w) \<and>
      no_teardown (initial_fields K w)"
    by (simp add: initial_fields_def no_teardown_def)
  then show ?case
    using addKnownNetwork_settings [of "initial_fields K w" K "[]" "[]"]
      addKnownNetwork_no_teardown [of K "initial_fields K w" "[]" "[]"]
    by (simp add: WiFiBase_def same_settings_def)
next
  case (world_moves s w)
  then show ?case by (simp add: no_teardown_def)
next
  case (after_configBackground s b)
  then show ?case by (simp add: configBackground_def no_teardown_def)
next
  case (after_configureAccessPoint s name pw)
  then show ?case by (simp add: configureAccessPoint_def no_teardown_def)
next
  case (after_disableAccessPoint s)
  then show ?case by (simp add: disableAccessPoint_def no_teardown_def)
next
  case (after_addKnownNetwork s name pw)
  then show ?case
    using addKnownNetwork_settings [of s K name pw] addKnownNetwork_no_teardown [of K s name pw]
    by (simp add: same_settings_def)
next
  case (after_setConnectTimeoutMs s ms)
  then show ?case by (simp add: setConnectTimeoutMs_def no_teardown_def)
next
  case (after_startup s n ok s')
  then show ?case using startup_frame [OF after_startup(2)] by (simp add: same_config_def)
qed

subsection \<open>Running the model on concrete inputs\<close>

lemmas registry_defs = addKnownNetwork_def store_entry_def malloc_def memcpy_def hasKnownNetwork_def
  lookupKnownNetwork_def lookup_loop.simps ssid_matches_def slot_def

lemmas model_defs = startup_def connectToNetwork_def startupAccessPoint_def connectWait_def
  WiFi_status_def WiFi_begin_def call_millis_def call_delay_def call_esp_wifi_disconnect_def
  call_startConfigPortal_def setConnected_def setDisconnected_def connected_def
  configureAccessPoint_def configBackground_def disableAccessPoint_def
  WiFiBase_def initial_fields_def connect_loop.simps

lemmas sim_defs = sim_def sim_idle_def only_def hdr_def

lemma replicate_small:
  "replicate 2 x = [x, x]" "replicate 4 x = [x, x, x, x]" "replicate 8 x = [x, x, x, x, x, x, x, x]"
  by (simp_all add: numeral_eq_Suc)

lemma portal_device_startup:
  "startup (hdr 8) (sim (only ''B'')) (Suc 0) portal_device = Some (True, portal_joined)"
  by (simp add: portal_device_def portal_joined_def portal_world_def model_defs registry_defs
        sim_defs replicate_small)

lemma portal_joined_reachable: "reachable (hdr 8) (sim (only ''B'')) portal_joined"
proof -
  have "reachable (hdr 8) (sim (only ''B'')) portal_device"
    unfolding portal_device_def
    by (rule reachable.after_configureAccessPoint) (rule reachable.constructed)
  then show ?thesis using portal_device_startup by (rule reachable.after_startup)
qed

subsection \<open>The flags that nothing sets\<close>

text \<open>
  C10. In every reachable state the access-point-active flag is false: no operation
  sets it, starting the config portal included. So \<^verbatim>\<open>configureAccessPoint\<close> returns
  true on every call and stores what it was given, \<^verbatim>\<open>disableAccessPoint\<close> returns
  true on every call, and no teardown of the access point is ever attempted: none is in
  the log before the call, and the call adds nothing to the log.
\<close>

theorem accessPointActive_stays_false:
  assumes "reachable K E s"
  shows "\<not> accessPointActive s \<and>
    configureAccessPoint s name pw =
      (True, s\<lparr>APSsid := name, APPasswd := pw, accessPointEnabled := True\<rparr>) \<and>
    disableAccessPoint s = (True, s\<lparr>accessPointEnabled := False\<rparr>) \<and>
    ShutdownAccessPoint \<notin> set (calls s) \<and>
    calls (snd (disableAccessPoint s)) = calls s"
  using reachable_flags [OF assms]
  by (simp add: configureAccessPoint_def disableAccessPoint_def no_teardown_def)

theorem accessPointActive_stays_false_witness:
  "\<not> accessPointActive portal_joined \<and>
   configureAccessPoint portal_joined (Some ''Other'') None =
     (True, portal_joined\<lparr>APSsid := Some ''Other'', APPasswd := None, accessPointEnabled := True\<rparr>) \<and>
   disableAccessPoint portal_joined = (True, portal_joined\<lparr>accessPointEnabled := False\<rparr>) \<and>
   ShutdownAccessPoint \<notin> set (calls portal_joined) \<and>
   calls (snd (disableAccessPoint portal_joined)) = calls portal_joined"
  using accessPointActive_stays_false [OF portal_joined_reachable, of "Some ''Other''" None]
  by simp

lemma idle_device_startup:
  "startup (hdr 8) (sim (only ''B'')) 1 idle_device = Some (False, idle_failed)"
  by (simp add: idle_device_def idle_failed_def model_defs registry_defs sim_defs)

text \<open>
  C8, as the code has it. \<^verbatim>\<open>configBackground\<close> rejects when \<^verbatim>\<open>_running\<close> is set, but
  nothing sets it: running in the background is left to be done in \<^verbatim>\<open>startup\<close>. So in
  every reachable state, and after every \<^verbatim>\<open>startup()\<close> that returns from one,
  \<^verbatim>\<open>_running\<close> is false and \<^verbatim>\<open>configBackground\<close> returns true and stores the setting.
\<close>

theorem configBackground_never_rejected:
  assumes "reachable K E s"
  shows "\<not> running s \<and> configBackground s b = (True, s\<lparr>background := b\<rparr>) \<and>
    (\<forall>n ok s'. startup K E n s = Some (ok, s') \<longrightarrow>
       \<not> running s' \<and> configBackground s' b = (True, s'\<lparr>background := b\<rparr>))"
proof -
  have now: "\<not> running t \<and> configBackground t b = (True, t\<lparr>background := b\<rparr>)"
    if "reachable K E t" for t
    using reachable_flags [OF that] by (simp add: configBackground_def)
  have "\<not> running s' \<and> configBackground s' b = (True, s'\<lparr>background := b\<rparr>)"
    if "startup K E n s = Some (ok, s')" for n ok s'
    using now [OF reachable.after_startup [OF assms that]] .
  then show ?thesis using now [OF assms] by blast
qed

theorem configBackground_never_rejected_witness:
  "\<not> running idle_device \<and>
   configBackground idle_device False = (True, idle_device\<lparr>background := False\<rparr>) \<and>
   \<not> running idle_failed \<and>
   configBackground idle_failed False = (True, idle_failed\<lparr>background := False\<rparr>)"
proof -
  have r: "reachable (hdr 8) (sim (only ''B'')) idle_device"
    unfolding idle_device_def by (rule reachable.constructed)
  show ?thesis
    using configBackground_never_rejected [OF r, of False] idle_device_startup by blast
qed

text \<open>
  After \<^verbatim>\<open>startup()\<close> on the fresh device (which fails, there being no network and no
  portal), \<^verbatim>\<open>configBackground(false)\<close> returns true and turns the background setting
  from true to false.
\<close>

theorem configBackground_after_startup_accepted:
  "startup (hdr 8) (sim (only ''B'')) 1 idle_device = Some (False, idle_failed) \<and>
   background idle_failed \<and>
   fst (configBackground idle_failed False) \<and>
   \<not> background (snd (configBackground idle_failed False))"
  using idle_device_startup
  by (simp add: idle_failed_def initial_fields_def configBackground_def)

text \<open>
  When the radio already reports an established link, \<^verbatim>\<open>startup\<close> returns true after
  the one status query and leaves the connected index as it was.
\<close>

lemma startup_already_connected:
  assumes "wifi_status E (world s) = (WL_CONNECTED, w)"
  shows "startup K E n s = Some (True, s\<lparr>world := w, calls := calls s @ [Status WL_CONNECTED]\<rparr>)"
  using assms by (simp add: startup_def connectToNetwork_def WiFi_status_def)

text \<open>
  C2. \<^verbatim>\<open>startup()\<close> returns true exactly when \<^verbatim>\<open>connected()\<close> is true afterwards,
  also when the radio already reports an established link. The code breaks it there:
  on a freshly constructed object whose radio is already connected, \<^verbatim>\<open>startup()\<close>
  returns true and \<^verbatim>\<open>connected()\<close> is false afterwards.
\<close>

theorem startup_true_yet_not_connected:
  "(case startup (hdr 8) (sim (only ''B'')) (Suc 0)
           (WiFiBase (hdr 8) (sim (only ''B'')) False (sim_idle\<lparr>sim_link := WL_CONNECTED\<rparr>)) of
      None \<Rightarrow> False
    | Some (ok, s') \<Rightarrow> ok \<and> \<not> connected (hdr 8) s')"
  by (simp add: model_defs registry_defs sim_defs)

subsection \<open>The registry in reachable states\<close>

lemma same_registry_inv:
  assumes "same_registry s s'"
  shows "wf_registry s' = wf_registry s" and "capacity_ok K s' = capacity_ok K s"
    and "known s' = known s"
  using assms by (simp_all add: same_registry_def wf_registry_def capacity_ok_def known_def)

lemma hasKnownNetwork_empty: "numKnownNetworks s = 0 \<Longrightarrow> \<not> hasKnownNetwork K s name"
  by (simp add: hasKnownNetwork_def lookupKnownNetwork_def lookup_loop.simps)

lemma addKnownNetwork_unchanged_or_appended:
  "snd (addKnownNetwork K s name pw) = s \<or> allocatedKnownNetworks s = 0 \<or>
   (\<not> hasKnownNetwork K s name \<and>
    (numKnownNetworks s < allocatedKnownNetworks s \<or> numKnownNetworks s < MAX_KNOWN_NETWORKS K)) \<or>
   numKnownNetworks s > allocatedKnownNetworks s"
  by (auto simp: addKnownNetwork_def)

lemma addKnownNetwork_inv:
  assumes wf: "wf_registry s" and cap: "capacity_ok K s" and small: "MAX_KNOWN_NETWORKS K \<le> 32768"
  shows "wf_registry (snd (addKnownNetwork K s name pw)) \<and>
         capacity_ok K (snd (addKnownNetwork K s name pw))"
proof (cases "snd (addKnownNetwork K s name pw) = s")
  case True
  then show ?thesis using wf cap by simp
next
  case False
  have le: "numKnownNetworks s \<le> allocatedKnownNetworks s" using wf by (simp add: wf_registry_def)
  then have nh: "\<not> hasKnownNetwork K s name"
    and room: "allocatedKnownNetworks s = 0 \<or> numKnownNetworks s < allocatedKnownNetworks s \<or>
               numKnownNetworks s < MAX_KNOWN_NETWORKS K"
    using False addKnownNetwork_unchanged_or_appended [of K s name pw]
      hasKnownNetwork_empty [of s K name] by auto
  have sm: "numKnownNetworks s = allocatedKnownNetworks s \<longrightarrow> allocatedKnownNetworks s * 2 < 65536"
  proof
    assume full: "numKnownNetworks s = allocatedKnownNetworks s"
    show "allocatedKnownNetworks s * 2 < 65536"
    proof (cases "allocatedKnownNetworks s = 0")
      case True
      then show ?thesis by simp
    next
      case False
      then have "allocatedKnownNetworks s < MAX_KNOWN_NETWORKS K" using room full by simp
      then show ?thesis using small by simp
    qed
  qed
  note app = addKnownNetwork_appends [OF wf nh room sm, of pw]
  have "capacity_ok K (snd (addKnownNetwork K s name pw))"
  proof (cases "allocatedKnownNetworks s = 0")
    case True
    then have "allocatedKnownNetworks (snd (addKnownNetwork K s name pw)) = 2 ^ Suc 0"
      using app(5) by simp
    then show ?thesis unfolding capacity_ok_def by blast
  next
    case nz: False
    then obtain k where k: "allocatedKnownNetworks s = 2 ^ Suc k" "k = 0 \<or> 2 ^ k < MAX_KNOWN_NETWORKS K"
      using cap unfolding capacity_ok_def by auto
    show ?thesis
    proof (cases "numKnownNetworks s = allocatedKnownNetworks s")
      case True
      then have "allocatedKnownNetworks s < MAX_KNOWN_NETWORKS K" using room nz by simp
      then have lt: "(2::nat) ^ Suc k < MAX_KNOWN_NETWORKS K" using k(1) by simp
      have "allocatedKnownNetworks (snd (addKnownNetwork K s name pw)) = 2 ^ Suc (Suc k)"
        using app(5) nz True k(1) by simp
      then have "allocatedKnownNetworks (snd (addKnownNetwork K s name pw)) = 2 ^ Suc (Suc k) \<and>
          (Suc k = 0 \<or> 2 ^ Suc k < MAX_KNOWN_NETWORKS K)"
        using lt by blast
      then show ?thesis unfolding capacity_ok_def by blast
    next
      case False
      then have "allocatedKnownNetworks (snd (addKnownNetwork K s name pw)) = 2 ^ Suc k"
        using app(5) nz k(1) by simp
      then show ?thesis using k(2) unfolding capacity_ok_def by blast
    qed
  qed
  then show ?thesis using app(4) by simp
qed

lemma startup_registry:
  assumes "startup K E n s = Some (ok, s')"
  shows "same_registry s s' \<or>
         (\<exists>s1 name pw. same_registry s s1 \<and> same_registry (snd (addKnownNetwork K s1 name pw)) s')"
  using assms
proof (cases rule: startup_cases)
  case joined
  then show ?thesis using connectToNetwork_frame by blast
next
  case no_portal
  then show ?thesis using connectToNetwork_frame by blast
next
  case (portal s1)
  have r1: "same_registry s s1" using connectToNetwork_frame [OF portal(1)] by simp
  obtain p s2 where p: "call_startConfigPortal E (APSsid s1) (APPasswd s1) s1 = (p, s2)"
    by (cases "call_startConfigPortal E (APSsid s1) (APPasswd s1) s1")
  have r2: "same_registry s s2"
    using same_call_startConfigPortal [OF p] same_fields_config r1 same_registry_trans by blast
  from portal(3) p show ?thesis
  proof (cases rule: startupAccessPoint_cases)
    case failed
    then show ?thesis using r2 by simp
  next
    case known
    then show ?thesis using r2 same_setConnected same_registry_trans by blast
  next
    case (learned added s3)
    have "same_registry (snd (addKnownNetwork K s2 (getSSID E (world s2)) (getPassword E (world s2)))) s'"
      using learned(4,5) same_setConnected [of s3] by simp
    then show ?thesis using r2 by blast
  qed
qed

text \<open>With a maximum of at most \<open>2\<^sup>1\<^sup>5\<close> the doubled size always fits \<^verbatim>\<open>uint16_t\<close>.\<close>

lemma reachable_registry:
  assumes "reachable K E s" and small: "MAX_KNOWN_NETWORKS K \<le> 32768"
  shows "wf_registry s \<and> capacity_ok K s"
  using assms(1)
proof (induction rule: reachable.induct)
  case (constructed useStored w)
  have i: "wf_registry (initial_fields K w) \<and> capacity_ok K (initial_fields K w)"
    by (simp add: initial_fields_def wf_registry_def capacity_ok_def known_def)
  then show ?case
    using addKnownNetwork_inv [of "initial_fields K w" K "[]" "[]"] small
    by (simp add: WiFiBase_def)
next
  case (world_moves s w)
  then show ?case by (simp add: wf_registry_def capacity_ok_def known_def)
next
  case (after_configBackground s b)
  then show ?case by (simp add: configBackground_def wf_registry_def capacity_ok_def known_def)
next
  case (after_configureAccessPoint s name pw)
  then show ?case by (simp add: configureAccessPoint_def wf_registry_def capacity_ok_def known_def)
next
  case (after_disableAccessPoint s)
  then show ?case
    using reachable_flags [of K E s]
    by (simp add: disableAccessPoint_def wf_registry_def capacity_ok_def known_def)
next
  case (after_addKnownNetwork s name pw)
  then show ?case using addKnownNetwork_inv small by blast
next
  case (after_setConnectTimeoutMs s ms)
  then show ?case by (simp add: setConnectTimeoutMs_def wf_registry_def capacity_ok_def known_def)
next
  case (after_startup s n ok s')
  from startup_registry [OF after_startup(2)] show ?case
  proof
    assume "same_registry s s'"
    then show ?thesis using after_startup.IH same_registry_inv by blast
  next
    assume "\<exists>s1 name pw. same_registry s s1 \<and> same_registry (snd (addKnownNetwork K s1 name pw)) s'"
    then obtain s1 name pw where s1: "same_registry s s1"
      and s': "same_registry (snd (addKnownNetwork K s1 name pw)) s'" by blast
    have "wf_registry s1 \<and> capacity_ok K s1"
      using after_startup.IH same_registry_inv [OF s1] by blast
    then have "wf_registry (snd (addKnownNetwork K s1 name pw)) \<and>
        capacity_ok K (snd (addKnownNetwork K s1 name pw))"
      using addKnownNetwork_inv small by blast
    then show ?thesis using same_registry_inv [OF s'] by blast
  qed
qed

subsection \<open>The object refines the registry of the specification\<close>

lemma holds_num: "holds s reg \<Longrightarrow> numKnownNetworks s = length reg"
proof -
  assume h: "holds s reg"
  then have "length (known s) = length reg" by (simp add: holds_def)
  moreover have "wf_registry s" using h by (simp add: holds_def)
  then have "length (known s) = numKnownNetworks s"
    by (simp add: wf_registry_def known_def)
  ultimately show ?thesis by simp
qed

lemma holds_slot:
  assumes "holds s reg" "i < length reg"
  shows "slot s i = entry (reg ! i)"
proof -
  have n: "numKnownNetworks s = length reg" using assms(1) by (rule holds_num)
  have len: "i < length (knownNetworks s)"
    using assms n by (simp add: holds_def wf_registry_def)
  have "known s ! i = knownNetworks s ! i" using assms(2) n by (simp add: known_def)
  moreover have "known s ! i = entry (reg ! i)" using assms by (simp add: holds_def)
  ultimately show ?thesis using len by (simp add: slot_def)
qed

lemma holds_matches:
  "holds s reg \<Longrightarrow> i < length reg \<Longrightarrow> ssid_matches s i name = (fst (reg ! i) = name)"
  by (simp add: ssid_matches_def holds_slot entry_def)

lemma holds_present: "holds s reg \<Longrightarrow> present s name = (name \<in> set (map fst reg))"
proof -
  assume h: "holds s reg"
  have "present s name = (\<exists>i<length reg. fst (reg ! i) = name)"
    using holds_num [OF h] holds_matches [OF h] by (auto simp: present_def)
  also have "\<dots> = (\<exists>i<length (map fst reg). map fst reg ! i = name)"
    by auto
  also have "\<dots> = (name \<in> set (map fst reg))"
    by (rule in_set_conv_nth [symmetric])
  finally show ?thesis .
qed

lemma holds_lookup:
  assumes h: "holds s reg" and d: "distinct (map fst reg)" and i: "i < length reg"
  shows "lookupKnownNetwork K s (fst (reg ! i)) = int i"
  unfolding lookupKnownNetwork_def
proof (rule lookup_loop_first)
  show "0 \<le> i" by simp
  show "i < numKnownNetworks s" using i holds_num [OF h] by simp
  show "ssid_matches s i (fst (reg ! i))" using holds_matches [OF h i] by simp
  fix k assume k: "0 \<le> k" "k < i"
  then have "map fst reg ! k \<noteq> map fst reg ! i"
    using nth_eq_iff_index_eq [OF d, of k i] i by simp
  then have "fst (reg ! k) \<noteq> fst (reg ! i)" using k i by simp
  then show "\<not> ssid_matches s k (fst (reg ! i))"
    using holds_matches [OF h, of k] k i by simp
qed

lemma valid_sentinel_mono: "valid_sentinel K n \<Longrightarrow> m \<le> n \<Longrightarrow> valid_sentinel K m"
  by (auto simp: valid_sentinel_def)

lemma spec_add_length: "length reg \<le> length (spec_add reg c)"
  by (simp add: spec_add_def)

lemma foldl_spec_add_length: "length reg \<le> length (foldl spec_add reg cs)"
proof (induction cs arbitrary: reg)
  case Nil
  then show ?case by simp
next
  case (Cons c cs)
  have "length reg \<le> length (spec_add reg c)" by (rule spec_add_length)
  also have "\<dots> \<le> length (foldl spec_add (spec_add reg c) cs)" by (rule Cons.IH)
  finally show ?case by simp
qed

text \<open>One call of \<^verbatim>\<open>addKnownNetwork\<close> does to the object what \<open>spec_add\<close> does to the list.\<close>

lemma addKnownNetwork_refines:
  assumes h: "holds s reg" and cap: "capacity_ok K s" and small: "MAX_KNOWN_NETWORKS K \<le> 32768"
    and fits: "length (spec_add reg c) \<le> MAX_KNOWN_NETWORKS K"
    and sent: "valid_sentinel K (length reg) \<or> fst c \<notin> set (map fst reg)"
  shows "fst (addKnownNetwork K s (fst c) (snd c))"
    and "holds (snd (addKnownNetwork K s (fst c) (snd c))) (spec_add reg c)"
    and "capacity_ok K (snd (addKnownNetwork K s (fst c) (snd c)))"
proof -
  let ?r = "addKnownNetwork K s (fst c) (snd c)"
  have wf: "wf_registry s" using h by (simp add: holds_def)
  have n: "numKnownNetworks s = length reg" using h by (rule holds_num)
  have capr: "capacity_ok K (snd ?r)" using addKnownNetwork_inv [OF wf cap small] by simp
  have "fst ?r \<and> holds (snd ?r) (spec_add reg c)"
  proof (cases "fst c \<in> set (map fst reg)")
    case True
    then have p: "present s (fst c)" using holds_present [OF h] by simp
    have "valid_sentinel K (numKnownNetworks s)" using sent True n by simp
    then have "hasKnownNetwork K s (fst c)" using p by (simp add: has_present)
    moreover have "allocatedKnownNetworks s \<noteq> 0"
      using p wf by (auto simp: present_def wf_registry_def)
    ultimately have "?r = (True, s)" by (simp add: addKnownNetwork_known)
    then show ?thesis using h True by (simp add: spec_add_def)
  next
    case False
    then have "\<not> present s (fst c)" using holds_present [OF h] by simp
    then have nh: "\<not> hasKnownNetwork K s (fst c)" by (rule has_absent)
    have lt: "numKnownNetworks s < MAX_KNOWN_NETWORKS K"
      using fits False n by (simp add: spec_add_def)
    then have room: "allocatedKnownNetworks s = 0 \<or> numKnownNetworks s < allocatedKnownNetworks s \<or>
               numKnownNetworks s < MAX_KNOWN_NETWORKS K" by simp
    have sm: "numKnownNetworks s = allocatedKnownNetworks s \<longrightarrow> allocatedKnownNetworks s * 2 < 65536"
      using lt small by auto
    note app = addKnownNetwork_appends [OF wf nh room sm, of "snd c"]
    have "known (snd ?r) = map entry (reg @ [c])"
      using app(2) h by (simp add: holds_def entry_def)
    then show ?thesis using app(1,4) False by (simp add: holds_def spec_add_def)
  qed
  then show "fst ?r" and "holds (snd ?r) (spec_add reg c)" and "capacity_ok K (snd ?r)"
    using capr by simp_all
qed

lemma add_all_Cons:
  "add_all K s ((name, pw) # cs) =
     (fst (addKnownNetwork K s name pw) # fst (add_all K (snd (addKnownNetwork K s name pw)) cs),
      snd (add_all K (snd (addKnownNetwork K s name pw)) cs))"
  by (simp split: prod.splits)

lemma add_all_append:
  "add_all K s (cs @ ds) =
     (fst (add_all K s cs) @ fst (add_all K (snd (add_all K s cs)) ds),
      snd (add_all K (snd (add_all K s cs)) ds))"
proof (induction cs arbitrary: s)
  case Nil
  then show ?case by simp
next
  case (Cons c cs)
  obtain name pw where c: "c = (name, pw)" by (cases c)
  show ?case unfolding c append_Cons add_all_Cons using Cons.IH by simp
qed

lemma add_all_refines:
  assumes "holds s reg" and "capacity_ok K s" and "MAX_KNOWN_NETWORKS K \<le> 32768"
    and "length (foldl spec_add reg cs) \<le> MAX_KNOWN_NETWORKS K"
    and "valid_sentinel K (length (foldl spec_add reg cs)) \<or> distinct (map fst (reg @ cs))"
  shows "fst (add_all K s cs) = replicate (length cs) True \<and>
         holds (snd (add_all K s cs)) (foldl spec_add reg cs) \<and>
         capacity_ok K (snd (add_all K s cs))"
  using assms
proof (induction cs arbitrary: s reg)
  case Nil
  then show ?case by simp
next
  case (Cons c cs)
  obtain name pw where c: "c = (name, pw)" by (cases c)
  let ?s1 = "snd (addKnownNetwork K s name pw)" and ?reg1 = "spec_add reg c"
  have len1: "length ?reg1 \<le> length (foldl spec_add reg (c # cs))"
    using foldl_spec_add_length [of ?reg1 cs] by simp
  have fits: "length ?reg1 \<le> MAX_KNOWN_NETWORKS K" using len1 Cons.prems(4) by simp
  have sent: "valid_sentinel K (length reg) \<or> fst c \<notin> set (map fst reg)"
  proof (cases "valid_sentinel K (length (foldl spec_add reg (c # cs)))")
    case True
    moreover have "length reg \<le> length (foldl spec_add reg (c # cs))"
      by (rule foldl_spec_add_length)
    ultimately show ?thesis using valid_sentinel_mono by blast
  next
    case False
    then have "distinct (map fst (reg @ c # cs))" using Cons.prems(5) by simp
    then show ?thesis by auto
  qed
  note step = addKnownNetwork_refines [OF Cons.prems(1,2,3) fits sent]
  have sent1: "valid_sentinel K (length (foldl spec_add ?reg1 cs)) \<or> distinct (map fst (?reg1 @ cs))"
  proof (cases "valid_sentinel K (length (foldl spec_add reg (c # cs)))")
    case True
    then show ?thesis by simp
  next
    case False
    then have d: "distinct (map fst (reg @ c # cs))" using Cons.prems(5) by simp
    then have "?reg1 = reg @ [c]" by (auto simp: spec_add_def)
    then show ?thesis using d by simp
  qed
  have "fst (add_all K ?s1 cs) = replicate (length cs) True \<and>
        holds (snd (add_all K ?s1 cs)) (foldl spec_add ?reg1 cs) \<and>
        capacity_ok K (snd (add_all K ?s1 cs))"
    using Cons.IH [of ?s1 ?reg1] step(2,3) Cons.prems(3,4) sent1 c by simp
  then show ?case using step(1) unfolding c add_all_Cons by simp
qed

lemma foldl_spec_add_names:
  "set (map fst (foldl spec_add reg cs)) = set (map fst reg) \<union> set (map fst cs)"
  by (induction cs arbitrary: reg) (auto simp: spec_add_def)

lemma foldl_spec_add_distinct:
  "distinct (map fst reg) \<Longrightarrow> distinct (map fst (foldl spec_add reg cs))"
  by (induction cs arbitrary: reg) (auto simp: spec_add_def)

lemma foldl_spec_add_extends: "\<exists>ext. foldl spec_add reg cs = reg @ ext"
proof (induction cs arbitrary: reg)
  case Nil
  then show ?case by simp
next
  case (Cons c cs)
  obtain ext where ext: "foldl spec_add (spec_add reg c) cs = spec_add reg c @ ext"
    using Cons.IH by blast
  have "spec_add reg c = reg @ [] \<or> spec_add reg c = reg @ [c]" by (simp add: spec_add_def)
  then obtain e where "spec_add reg c = reg @ e" by blast
  then have "foldl spec_add reg (c # cs) = reg @ (e @ ext)" using ext by simp
  then show ?case by blast
qed

lemma foldl_spec_add_new:
  "distinct (map fst (reg @ cs)) \<Longrightarrow> foldl spec_add reg cs = reg @ cs"
  by (induction cs arbitrary: reg) (auto simp: spec_add_def)

lemma spec_registry_length: "length (foldl spec_add [] cs) = card (fst ` set cs)"
proof -
  have "distinct (map fst (foldl spec_add [] cs))" by (rule foldl_spec_add_distinct) simp
  then have "card (set (map fst (foldl spec_add [] cs))) = length (map fst (foldl spec_add [] cs))"
    by (rule distinct_card)
  then show ?thesis using foldl_spec_add_names [of "[]" cs] by simp
qed

text \<open>The place of a name in the list is the number of distinct names added before it.\<close>

lemma spec_registry_index:
  assumes "cs = pre @ (name, pw) # post" and "name \<notin> fst ` set pre"
  shows "card (fst ` set pre) < length (foldl spec_add [] cs) \<and>
         foldl spec_add [] cs ! card (fst ` set pre) = (name, pw)"
proof -
  let ?R = "foldl spec_add [] pre"
  have len: "length ?R = card (fst ` set pre)" by (rule spec_registry_length)
  have "name \<notin> set (map fst ?R)" using assms(2) foldl_spec_add_names [of "[]" pre] by simp
  then have "spec_add ?R (name, pw) = ?R @ [(name, pw)]" by (simp add: spec_add_def)
  then have "foldl spec_add [] cs = foldl spec_add (?R @ [(name, pw)]) post"
    using assms(1) by simp
  then obtain ext where "foldl spec_add [] cs = (?R @ [(name, pw)]) @ ext"
    using foldl_spec_add_extends [of "?R @ [(name, pw)]" post] by auto
  then show ?thesis using len by (simp add: nth_append)
qed

lemma holds_initial: "holds (initial_fields K w) []" "capacity_ok K (initial_fields K w)"
  by (simp_all add: holds_def wf_registry_def known_def capacity_ok_def initial_fields_def)

lemma reachable_add_all: "reachable K E s \<Longrightarrow> reachable K E (snd (add_all K s cs))"
proof (induction cs arbitrary: s)
  case Nil
  then show ?case by simp
next
  case (Cons c cs)
  obtain name pw where c: "c = (name, pw)" by (cases c)
  have "reachable K E (snd (addKnownNetwork K s name pw))"
    using Cons.prems by (rule reachable.after_addKnownNetwork)
  then show ?case unfolding c add_all_Cons using Cons.IH by simp
qed

text \<open>
  C3. Starting from an empty registry, for every sequence of \<^verbatim>\<open>addKnownNetwork\<close>
  calls whose number of distinct names is within the maximum, every call returns true,
  \<^verbatim>\<open>numKnownNetworks()\<close> is the number of distinct names, and each name is found by
  \<^verbatim>\<open>lookupKnownNetwork\<close> at its insertion index (the number of distinct names added
  before its first call), where the slot holds the name with the secret of that first
  call; growth of the block by doubling is among the steps covered. The maximum is taken
  to be at most \<open>2\<^sup>1\<^sup>5\<close> and the reserved index not to be an index in use.
\<close>

theorem registry_follows_calls:
  assumes "MAX_KNOWN_NETWORKS K \<le> 32768"
    and "card (fst ` set cs) \<le> MAX_KNOWN_NETWORKS K"
    and "valid_sentinel K (card (fst ` set cs))"
  shows "fst (add_all K (WiFiBase K E False w) cs) = replicate (length cs) True \<and>
    numKnownNetworks (snd (add_all K (WiFiBase K E False w) cs)) = card (fst ` set cs) \<and>
    (\<forall>pre name pw post. cs = pre @ (name, pw) # post \<and> name \<notin> fst ` set pre \<longrightarrow>
       lookupKnownNetwork K (snd (add_all K (WiFiBase K E False w) cs)) name
         = int (card (fst ` set pre)) \<and>
       slot (snd (add_all K (WiFiBase K E False w) cs)) (card (fst ` set pre))
         = Some \<lparr>ssid = name, passwd = pw\<rparr>)"
proof -
  let ?init = "WiFiBase K E False w" and ?R = "foldl spec_add [] cs"
  let ?fin = "snd (add_all K ?init cs)"
  have s0: "?init = initial_fields K w" by (simp add: WiFiBase_def)
  have len: "length ?R = card (fst ` set cs)" by (rule spec_registry_length)
  have r: "fst (add_all K ?init cs) = replicate (length cs) True \<and> holds ?fin ?R \<and> capacity_ok K ?fin"
    unfolding s0
    using add_all_refines [of "initial_fields K w" "[]" K cs] assms len holds_initial [of K w]
    by simp
  then have h: "holds ?fin ?R" by simp
  have d: "distinct (map fst ?R)" by (rule foldl_spec_add_distinct) simp
  have "lookupKnownNetwork K ?fin name = int (card (fst ` set pre)) \<and>
        slot ?fin (card (fst ` set pre)) = Some \<lparr>ssid = name, passwd = pw\<rparr>"
    if "cs = pre @ (name, pw) # post" "name \<notin> fst ` set pre" for pre name pw post
  proof -
    let ?i = "card (fst ` set pre)"
    have i: "?i < length ?R" "?R ! ?i = (name, pw)"
      using spec_registry_index [OF that] by simp_all
    show ?thesis
      using holds_lookup [OF h d i(1), of K] holds_slot [OF h i(1)] i(2) by (simp add: entry_def)
  qed
  then show ?thesis using r holds_num [OF h] len by auto
qed

theorem registry_follows_calls_witness:
  "fst (add_all (hdr 8) (WiFiBase (hdr 8) (sim (only ''B'')) False sim_idle) six_calls)
     = [True, True, True, True, True, True] \<and>
   numKnownNetworks (snd (add_all (hdr 8) (WiFiBase (hdr 8) (sim (only ''B'')) False sim_idle) six_calls)) = 5 \<and>
   lookupKnownNetwork (hdr 8)
     (snd (add_all (hdr 8) (WiFiBase (hdr 8) (sim (only ''B'')) False sim_idle) six_calls)) ''C'' = 2 \<and>
   slot (snd (add_all (hdr 8) (WiFiBase (hdr 8) (sim (only ''B'')) False sim_idle) six_calls)) 2
     = Some \<lparr>ssid = ''C'', passwd = ''c''\<rparr>"
proof -
  have c: "card (fst ` set six_calls) = 5" by (simp add: six_calls_def card_insert_if)
  have p: "MAX_KNOWN_NETWORKS (hdr 8) \<le> 32768"
    "card (fst ` set six_calls) \<le> MAX_KNOWN_NETWORKS (hdr 8)"
    "valid_sentinel (hdr 8) (card (fst ` set six_calls))"
    unfolding c by (simp_all add: hdr_def valid_sentinel_def)
  note t = registry_follows_calls [OF p, of "sim (only ''B'')" sim_idle]
  have split: "six_calls = [(''A'', ''a''), (''B'', ''b''), (''A'', ''x'')] @ (''C'', ''c'') # [(''D'', ''d''), (''E'', ''e'')]
      \<and> ''C'' \<notin> fst ` set [(''A'', ''a''), (''B'', ''b''), (''A'', ''x'')]"
    by (simp add: six_calls_def)
  have two: "card (fst ` set [(''A'', ''a''), (''B'', ''b''), (''A'', ''x'')]) = 2"
    by (simp add: card_insert_if)
  have r: "replicate (length six_calls) True = [True, True, True, True, True, True]"
    by (simp add: six_calls_def)
  from t split have
    "lookupKnownNetwork (hdr 8)
       (snd (add_all (hdr 8) (WiFiBase (hdr 8) (sim (only ''B'')) False sim_idle) six_calls)) ''C''
       = int (card (fst ` set [(''A'', ''a''), (''B'', ''b''), (''A'', ''x'')])) \<and>
     slot (snd (add_all (hdr 8) (WiFiBase (hdr 8) (sim (only ''B'')) False sim_idle) six_calls))
       (card (fst ` set [(''A'', ''a''), (''B'', ''b''), (''A'', ''x'')]))
       = Some \<lparr>ssid = ''C'', passwd = ''c''\<rparr>"
    by blast
  then show ?thesis using t c r unfolding two by simp
qed

text \<open>
  C9. In every reachable state in which a name is present, \<^verbatim>\<open>addKnownNetwork\<close> with
  that name returns true and leaves the whole object, the count and every entry with
  it, as it was. The maximum is taken to be at most \<open>2\<^sup>1\<^sup>5\<close> and the reserved index
  not to be an index in use.
\<close>

theorem addKnownNetwork_again:
  assumes "reachable K E s" and "MAX_KNOWN_NETWORKS K \<le> 32768"
    and "valid_sentinel K (numKnownNetworks s)" and "present s name"
  shows "addKnownNetwork K s name pw = (True, s)"
proof -
  have wf: "wf_registry s" using reachable_registry [OF assms(1,2)] by simp
  have "allocatedKnownNetworks s \<noteq> 0"
    using assms(4) wf by (auto simp: present_def wf_registry_def)
  moreover have "hasKnownNetwork K s name" using assms(4,3) by (rule has_present)
  ultimately show ?thesis by (rule addKnownNetwork_known)
qed

theorem addKnownNetwork_again_witness:
  "addKnownNetwork (hdr 8) portal_joined ''NewNet'' ''changed'' = (True, portal_joined)"
proof -
  have "MAX_KNOWN_NETWORKS (hdr 8) \<le> 32768" by (simp add: hdr_def)
  moreover have "valid_sentinel (hdr 8) (numKnownNetworks portal_joined)"
    by (simp add: valid_sentinel_def hdr_def portal_joined_def)
  moreover have "present portal_joined ''NewNet''"
    by (simp add: present_def portal_joined_def ssid_matches_def slot_def)
  ultimately show ?thesis
    using addKnownNetwork_again [OF portal_joined_reachable] by blast
qed

subsection \<open>The ceiling\<close>

lemma capacity_within_max:
  assumes cap: "capacity_ok K s" and pow: "MAX_KNOWN_NETWORKS K = 2 ^ m" and m: "1 \<le> m"
  shows "allocatedKnownNetworks s \<le> MAX_KNOWN_NETWORKS K"
proof (cases "allocatedKnownNetworks s = 0")
  case True
  then show ?thesis by simp
next
  case False
  then obtain k where k: "allocatedKnownNetworks s = 2 ^ Suc k" "k = 0 \<or> 2 ^ k < MAX_KNOWN_NETWORKS K"
    using cap unfolding capacity_ok_def by auto
  have "Suc k \<le> m"
  proof (cases "k = 0")
    case True
    then show ?thesis using m by simp
  next
    case False
    then have "(2::nat) ^ k < 2 ^ m" using k(2) pow by simp
    then have "k < m" by simp
    then show ?thesis by simp
  qed
  then have "(2::nat) ^ Suc k \<le> 2 ^ m" by (intro power_increasing) simp_all
  then show ?thesis using k(1) pow by simp
qed

lemma pow2_small: "m \<le> 15 \<Longrightarrow> (2::nat) ^ m \<le> 32768"
proof -
  assume "m \<le> 15"
  then have "(2::nat) ^ m \<le> 2 ^ 15" by (intro power_increasing) simp_all
  then show ?thesis by simp
qed

lemma appended_slot:
  assumes "wf_registry s'" and "known s' = known s @ [e]" and "numKnownNetworks s' = numKnownNetworks s + 1"
    and "wf_registry s"
  shows "slot s' (numKnownNetworks s) = e"
proof -
  have n: "length (known s) = numKnownNetworks s"
    using assms(4) by (simp add: wf_registry_def known_def)
  have lt: "numKnownNetworks s < length (knownNetworks s')"
    using assms(1,3) by (simp add: wf_registry_def)
  have "known s' ! numKnownNetworks s = knownNetworks s' ! numKnownNetworks s"
    using assms(3) by (simp add: known_def)
  moreover have "known s' ! numKnownNetworks s = e"
    using assms(2) n by (simp add: nth_append)
  ultimately show ?thesis using lt by (simp add: slot_def)
qed

text \<open>
  C1, as the code has it. The check against \<^verbatim>\<open>MAX_KNOWN_NETWORKS\<close> is made only when
  the block is full, and the block size is a power of two. When the maximum itself is a
  power of two (from 2 to \<open>2\<^sup>1\<^sup>5\<close>), the count never passes it, and in every reachable
  state \<^verbatim>\<open>addKnownNetwork\<close> with a name not present fails, changing nothing, exactly
  when the count equals the maximum; otherwise it returns true, the count goes up by one
  and the new entry is in the next slot. In particular, of \<open>MAX_KNOWN_NETWORKS + 1\<close>
  distinct names added to an empty registry the first \<open>MAX_KNOWN_NETWORKS\<close> succeed and
  the last one fails, the count staying at the maximum.
\<close>

theorem addKnownNetwork_ceiling:
  assumes pow: "MAX_KNOWN_NETWORKS K = 2 ^ m" and m1: "1 \<le> m" and m15: "m \<le> 15"
    and reach: "reachable K E s" and new: "\<not> present s name"
    and dist: "distinct (map fst cs)" and len: "length cs = MAX_KNOWN_NETWORKS K + 1"
  shows "numKnownNetworks s \<le> MAX_KNOWN_NETWORKS K \<and>
    (fst (addKnownNetwork K s name pw) = (numKnownNetworks s \<noteq> MAX_KNOWN_NETWORKS K)) \<and>
    (if numKnownNetworks s = MAX_KNOWN_NETWORKS K then addKnownNetwork K s name pw = (False, s)
     else numKnownNetworks (snd (addKnownNetwork K s name pw)) = numKnownNetworks s + 1 \<and>
          slot (snd (addKnownNetwork K s name pw)) (numKnownNetworks s)
            = Some \<lparr>ssid = name, passwd = pw\<rparr>) \<and>
    fst (add_all K (WiFiBase K E False w) cs) = replicate (MAX_KNOWN_NETWORKS K) True @ [False] \<and>
    numKnownNetworks (snd (add_all K (WiFiBase K E False w) cs)) = MAX_KNOWN_NETWORKS K"
proof -
  have small: "MAX_KNOWN_NETWORKS K \<le> 32768" using pow pow2_small [OF m15] by simp
  have max2: "2 \<le> MAX_KNOWN_NETWORKS K"
    using pow m1 power_increasing [of 1 m "2::nat"] by simp
  text \<open>One call, in any reachable state.\<close>
  have one: "numKnownNetworks t \<le> MAX_KNOWN_NETWORKS K \<and>
      (fst (addKnownNetwork K t n p) = (numKnownNetworks t \<noteq> MAX_KNOWN_NETWORKS K)) \<and>
      (if numKnownNetworks t = MAX_KNOWN_NETWORKS K then addKnownNetwork K t n p = (False, t)
       else numKnownNetworks (snd (addKnownNetwork K t n p)) = numKnownNetworks t + 1 \<and>
            slot (snd (addKnownNetwork K t n p)) (numKnownNetworks t) = Some \<lparr>ssid = n, passwd = p\<rparr>)"
    if rt: "reachable K E t" and nt: "\<not> present t n" for t n p
  proof -
    have wf: "wf_registry t" and cap: "capacity_ok K t"
      using reachable_registry [OF rt small] by simp_all
    have a: "allocatedKnownNetworks t \<le> MAX_KNOWN_NETWORKS K"
      using capacity_within_max [OF cap pow m1] .
    have le: "numKnownNetworks t \<le> allocatedKnownNetworks t" using wf by (simp add: wf_registry_def)
    have nh: "\<not> hasKnownNetwork K t n" using nt by (rule has_absent)
    show ?thesis
    proof (cases "numKnownNetworks t = MAX_KNOWN_NETWORKS K")
      case True
      then have "allocatedKnownNetworks t \<noteq> 0" "numKnownNetworks t = allocatedKnownNetworks t"
        using a le max2 by simp_all
      then have "addKnownNetwork K t n p = (False, t)"
        using nh True by (simp add: addKnownNetwork_full)
      then show ?thesis using True by simp
    next
      case False
      then have lt: "numKnownNetworks t < MAX_KNOWN_NETWORKS K" using a le by simp
      then have room: "allocatedKnownNetworks t = 0 \<or> numKnownNetworks t < allocatedKnownNetworks t \<or>
               numKnownNetworks t < MAX_KNOWN_NETWORKS K" by simp
      have sm: "numKnownNetworks t = allocatedKnownNetworks t \<longrightarrow> allocatedKnownNetworks t * 2 < 65536"
        using lt small by auto
      note app = addKnownNetwork_appends [OF wf nh room sm, of p]
      have "slot (snd (addKnownNetwork K t n p)) (numKnownNetworks t) = Some \<lparr>ssid = n, passwd = p\<rparr>"
        using appended_slot [OF app(4) app(2) app(3) wf] .
      then show ?thesis using app(1,3) False lt by simp
    qed
  qed
  text \<open>The first \<open>MAX_KNOWN_NETWORKS\<close> names go in; the next one does not.\<close>
  let ?M = "MAX_KNOWN_NETWORKS K" and ?init = "WiFiBase K E False w"
  obtain pre c where cs: "cs = pre @ [c]"
    using len by (cases cs rule: rev_cases) auto
  have lpre: "length pre = ?M" using len cs by simp
  have dpre: "distinct (map fst pre)" and cnew: "fst c \<notin> set (map fst pre)"
    using dist cs by simp_all
  have init: "?init = initial_fields K w" by (simp add: WiFiBase_def)
  have reg: "foldl spec_add [] pre = pre" using foldl_spec_add_new [of "[]" pre] dpre by simp
  have r: "fst (add_all K ?init pre) = replicate (length pre) True \<and>
      holds (snd (add_all K ?init pre)) (foldl spec_add [] pre) \<and>
      capacity_ok K (snd (add_all K ?init pre))"
    unfolding init
    using add_all_refines [of "initial_fields K w" "[]" K pre] holds_initial [of K w] small
      dpre lpre reg by simp
  let ?mid = "snd (add_all K ?init pre)"
  have hm: "holds ?mid pre" using r reg by simp
  have nm: "numKnownNetworks ?mid = ?M" using holds_num [OF hm] lpre by simp
  have "reachable K E ?mid" by (rule reachable_add_all) (rule reachable.constructed)
  moreover have "\<not> present ?mid (fst c)" using holds_present [OF hm] cnew by simp
  ultimately have last: "addKnownNetwork K ?mid (fst c) (snd c) = (False, ?mid)"
    using one [of ?mid "fst c" "snd c"] nm by simp
  have "add_all K ?init cs =
      (fst (add_all K ?init pre) @ fst (add_all K ?mid [c]), snd (add_all K ?mid [c]))"
    unfolding cs by (rule add_all_append)
  moreover have "add_all K ?mid [c] = ([False], ?mid)"
    using last by (cases c) simp
  ultimately have "fst (add_all K ?init cs) = replicate ?M True @ [False] \<and>
      numKnownNetworks (snd (add_all K ?init cs)) = ?M"
    using r lpre nm by simp
  then show ?thesis using one [OF reach new, of pw] by simp
qed

lemma replicate_3: "replicate 3 x = [x, x, x]"
  by (simp add: numeral_eq_Suc)

lemma full_two_eval:
  "full_two = (initial_fields (hdr 2) sim_idle)
     \<lparr>numKnownNetworks := 2, allocatedKnownNetworks := 2,
      knownNetworks := [Some \<lparr>ssid = ''A'', passwd = ''a''\<rparr>, Some \<lparr>ssid = ''B'', passwd = ''b''\<rparr>]\<rparr>"
  by (simp add: full_two_def registry_defs WiFiBase_def initial_fields_def hdr_def replicate_small)

theorem addKnownNetwork_ceiling_witness:
  "numKnownNetworks full_two \<le> MAX_KNOWN_NETWORKS (hdr 2) \<and>
   \<not> fst (addKnownNetwork (hdr 2) full_two ''C'' ''c'') \<and>
   addKnownNetwork (hdr 2) full_two ''C'' ''c'' = (False, full_two) \<and>
   fst (add_all (hdr 2) (WiFiBase (hdr 2) (sim (only ''B'')) False sim_idle)
          [(''A'', ''a''), (''B'', ''b''), (''C'', ''c'')]) = [True, True, False] \<and>
   numKnownNetworks
     (snd (add_all (hdr 2) (WiFiBase (hdr 2) (sim (only ''B'')) False sim_idle)
             [(''A'', ''a''), (''B'', ''b''), (''C'', ''c'')])) = 2"
proof -
  have pow: "MAX_KNOWN_NETWORKS (hdr 2) = 2 ^ 1" "(1::nat) \<le> 1" "(1::nat) \<le> 15"
    by (simp_all add: hdr_def)
  have reach: "reachable (hdr 2) (sim (only ''B'')) full_two"
    unfolding full_two_def by (rule reachable_add_all) (rule reachable.constructed)
  have n: "numKnownNetworks full_two = MAX_KNOWN_NETWORKS (hdr 2)"
    by (simp add: full_two_eval hdr_def)
  have new: "\<not> present full_two ''C''"
    by (simp add: full_two_eval present_def ssid_matches_def slot_def less_Suc_eq numeral_2_eq_2)
  have cs: "distinct (map fst [(''A'', ''a''), (''B'', ''b''), (''C'', ''c'')])"
    "length [(''A'', ''a''), (''B'', ''b''), (''C'', ''c'')] = MAX_KNOWN_NETWORKS (hdr 2) + 1"
    by (simp_all add: hdr_def)
  have r: "MAX_KNOWN_NETWORKS (hdr 2) = 2" by (simp add: hdr_def)
  show ?thesis
    using addKnownNetwork_ceiling [OF pow reach new cs, of "''c''" sim_idle] n
    unfolding r by (simp add: replicate_small del: add_all.simps)
qed

lemma full_three_eval:
  "full_three = (initial_fields (hdr 3) sim_idle)
     \<lparr>numKnownNetworks := 3, allocatedKnownNetworks := 4,
      knownNetworks := [Some \<lparr>ssid = ''A'', passwd = ''a''\<rparr>, Some \<lparr>ssid = ''B'', passwd = ''b''\<rparr>,
                        Some \<lparr>ssid = ''C'', passwd = ''c''\<rparr>, None]\<rparr>"
  by (simp add: full_three_def registry_defs WiFiBase_def initial_fields_def hdr_def replicate_small)

theorem addKnownNetwork_ceiling_counterexample:
  "numKnownNetworks full_three = MAX_KNOWN_NETWORKS (hdr 3) \<and>
   \<not> present full_three ''D'' \<and>
   fst (addKnownNetwork (hdr 3) full_three ''D'' ''d'') \<and>
   numKnownNetworks (snd (addKnownNetwork (hdr 3) full_three ''D'' ''d'')) = 4 \<and>
   fst (add_all (hdr 3) (WiFiBase (hdr 3) (sim (only ''B'')) False sim_idle)
          [(''A'', ''a''), (''B'', ''b''), (''C'', ''c''), (''D'', ''d'')])
     = [True, True, True, True]"
proof -
  have "numKnownNetworks full_three = MAX_KNOWN_NETWORKS (hdr 3)"
    by (simp add: full_three_eval hdr_def)
  moreover have "\<not> present full_three ''D''"
    by (simp add: full_three_eval present_def ssid_matches_def slot_def less_Suc_eq numeral_3_eq_3)
  moreover have "fst (addKnownNetwork (hdr 3) full_three ''D'' ''d'')"
    by (simp add: full_three_eval registry_defs initial_fields_def hdr_def)
  moreover have "numKnownNetworks (snd (addKnownNetwork (hdr 3) full_three ''D'' ''d'')) = 4"
    by (simp add: full_three_eval registry_defs initial_fields_def hdr_def)
  moreover have "fst (add_all (hdr 3) (WiFiBase (hdr 3) (sim (only ''B'')) False sim_idle)
          [(''A'', ''a''), (''B'', ''b''), (''C'', ''c''), (''D'', ''d'')])
     = [True, True, True, True]"
    by (simp add: registry_defs WiFiBase_def initial_fields_def hdr_def replicate_small)
  ultimately show ?thesis by blast
qed

subsection \<open>Fuel is only a bound\<close>

lemma connectWait_loop_more_fuel:
  "connectWait_loop E n start s = Some r \<Longrightarrow> connectWait_loop E (n + k) start s = Some r"
proof (induction n arbitrary: s)
  case 0
  then show ?case by simp
next
  case (Suc n)
  obtain st s1 where st: "WiFi_status E s = (st, s1)" by (cases "WiFi_status E s")
  obtain now s2 where now: "call_millis E s1 = (now, s2)" by (cases "call_millis E s1")
  show ?case
  proof (cases "st = WL_CONNECTED \<or> st = WL_CONNECT_FAILED \<or> now - start > connectionTimeoutMs s2")
    case True
    then show ?thesis using Suc.prems st now by auto
  next
    case False
    then have "connectWait_loop E n start (call_delay E 100 s2) = Some r"
      using Suc.prems st now by auto
    from Suc.IH [OF this] show ?thesis using False st now by auto
  qed
qed

lemma connectWait_more_fuel:
  "connectWait E n s = Some r \<Longrightarrow> connectWait E (n + k) s = Some r"
  by (auto simp: connectWait_def split: prod.splits intro: connectWait_loop_more_fuel)

lemma connect_loop_more_fuel:
  "connect_loop E n index s = Some r \<Longrightarrow> connect_loop E (n + k) index s = Some r"
proof (induction E n index s rule: connect_loop.induct)
  case (1 E n index s)
  show ?case
  proof (cases "index < numKnownNetworks s")
    case False
    then show ?thesis using "1.prems" by (simp add: connect_loop.simps)
  next
    case True
    then obtain e where e: "slot s index = Some e"
      using "1.prems" by (cases "slot s index") (simp_all add: connect_loop.simps)
    let ?b = "WiFi_begin E (Some (ssid e, passwd e)) s"
    obtain ok1 s1 where w: "connectWait E n ?b = Some (ok1, s1)"
      using "1.prems" True e by (cases "connectWait E n ?b") (auto simp: connect_loop.simps)
    have w': "connectWait E (n + k) ?b = Some (ok1, s1)" using w by (rule connectWait_more_fuel)
    show ?thesis
    proof (cases ok1)
      case True
      then have "r = (True, setConnected (int index) s1)"
        using "1.prems" \<open>index < numKnownNetworks s\<close> e w by (simp add: connect_loop.simps)
      then show ?thesis
        using True \<open>index < numKnownNetworks s\<close> e w'
        by (subst connect_loop.simps) simp
    next
      case False
      then have "connect_loop E n (Suc index) s1 = Some r"
        using "1.prems" True e w by (simp add: connect_loop.simps)
      then have "connect_loop E (n + k) (Suc index) s1 = Some r"
        using "1.IH" [OF True e w _ False] by simp
      then show ?thesis using False True e w'
        by (subst connect_loop.simps) simp
    qed
  qed
qed

lemma connectToNetwork_more_fuel:
  assumes "connectToNetwork K E n s = Some (ok, s')"
  shows "connectToNetwork K E (n + k) s = Some (ok, s')"
proof -
  obtain st s0 where st: "WiFi_status E s = (st, s0)" by (cases "WiFi_status E s")
  from assms st show ?thesis
  proof (cases rule: connectToNetwork_cases)
    case already
    then show ?thesis using st by (simp add: connectToNetwork_def)
  next
    case empty
    then show ?thesis using st by (simp add: connectToNetwork_def)
  next
    case (stored_ok e s1)
    then show ?thesis
      using st connectWait_more_fuel [OF stored_ok(5), of k] by (simp add: connectToNetwork_def)
  next
    case (stored_fail e s1 s2)
    then show ?thesis
      using st connectWait_more_fuel [OF stored_fail(5), of k]
        connect_loop_more_fuel [OF stored_fail(6), of k]
      by (simp add: connectToNetwork_def)
  next
    case (literal e s2)
    then show ?thesis
      using st connect_loop_more_fuel [OF literal(5), of k] by (simp add: connectToNetwork_def)
  qed
qed

text \<open>A run of \<^verbatim>\<open>startup\<close> that returns does so with the same result on any more fuel.\<close>

lemma startup_more_fuel: "startup K E n s = Some r \<Longrightarrow> startup K E (n + k) s = Some r"
proof -
  assume a: "startup K E n s = Some r"
  then obtain ok1 s1 where c: "connectToNetwork K E n s = Some (ok1, s1)"
    by (cases "connectToNetwork K E n s") (auto simp: startup_def)
  have "connectToNetwork K E (n + k) s = Some (ok1, s1)"
    using c by (rule connectToNetwork_more_fuel)
  then show ?thesis using a c by (simp add: startup_def)
qed

subsection \<open>The wait ends when the clock runs\<close>

text \<open>
  With a ticking clock the wait returns within \<open>rounds s\<close> rounds, provided the timeout
  leaves room in 32 bits for the time \<open>J\<close> that a round may take (with a timeout of
  \<open>2\<^sup>3\<^sup>2 - 1\<close> no elapsed time is ever greater, and an undecided status is polled for
  ever).
\<close>

lemma wait_round:
  assumes tick: "ticking E J"
  shows "unat (connectionTimeoutMs s) + J < 2 ^ 32 \<Longrightarrow>
    unat (connectionTimeoutMs s) < unat (clock_reading E (world s) - start) + 100 * n \<Longrightarrow>
    connectWait_loop E (Suc n) start s \<noteq> None"
proof (induction n arbitrary: s)
  case 0
  obtain st s1 where st: "WiFi_status E s = (st, s1)" by (cases "WiFi_status E s")
  obtain now s2 where now: "call_millis E s1 = (now, s2)" by (cases "call_millis E s1")
  have n: "now = clock_reading E (world s)"
    using st now by (auto simp: WiFi_status_def call_millis_def clock_reading_def split: prod.splits)
  have t2: "connectionTimeoutMs s2 = connectionTimeoutMs s"
    using same_fields_WiFi_status [OF st] same_fields_call_millis [OF now]
    by (simp add: same_fields_def)
  have "now - start > connectionTimeoutMs s2"
    using "0.prems"(2) n t2 by (simp add: word_less_nat_alt)
  then show ?case using st now by auto
next
  case (Suc n)
  obtain st s1 where st: "WiFi_status E s = (st, s1)" by (cases "WiFi_status E s")
  obtain now s2 where now: "call_millis E s1 = (now, s2)" by (cases "call_millis E s1")
  have n: "now = clock_reading E (world s)"
    using st now by (auto simp: WiFi_status_def call_millis_def clock_reading_def split: prod.splits)
  have t2: "connectionTimeoutMs s2 = connectionTimeoutMs s"
    using same_fields_WiFi_status [OF st] same_fields_call_millis [OF now]
    by (simp add: same_fields_def)
  show ?case
  proof (cases "st = WL_CONNECTED \<or> st = WL_CONNECT_FAILED \<or> now - start > connectionTimeoutMs s2")
    case True
    then show ?thesis using st now by auto
  next
    case False
    let ?d = "call_delay E 100 s2"
    let ?step = "clock_reading E (after_round E (world s)) - clock_reading E (world s)"
    have step: "connectWait_loop E (Suc (Suc n)) start s = connectWait_loop E (Suc n) start ?d"
      using False st now by simp
    have le: "unat (now - start) \<le> unat (connectionTimeoutMs s)"
      using False t2 by (simp add: word_less_nat_alt)
    have w: "world ?d = after_round E (world s)"
      using st now
      by (auto simp: WiFi_status_def call_millis_def call_delay_def after_round_def split: prod.splits)
    have td: "connectionTimeoutMs ?d = connectionTimeoutMs s" using t2 by (simp add: call_delay_def)
    have b: "100 \<le> unat ?step" "unat ?step \<le> J" using tick by (simp_all add: ticking_def)
    have "clock_reading E (world ?d) - start = (now - start) + ?step"
      unfolding w n by simp
    moreover have "unat ((now - start) + ?step) = unat (now - start) + unat ?step"
      using le b(2) Suc.prems(1) by (simp add: unat_word_ariths)
    ultimately have e: "unat (clock_reading E (world ?d) - start) = unat (now - start) + unat ?step"
      by (simp only:)
    have "connectWait_loop E (Suc n) start ?d \<noteq> None"
    proof (rule Suc.IH)
      show "unat (connectionTimeoutMs ?d) + J < 2 ^ 32" using Suc.prems(1) td by simp
      show "unat (connectionTimeoutMs ?d) < unat (clock_reading E (world ?d) - start) + 100 * n"
        using Suc.prems(2) td e b(1) n by simp
    qed
    then show ?thesis using step by simp
  qed
qed

lemma connectWait_returns:
  assumes "ticking E J" "unat (connectionTimeoutMs s) + J < 2 ^ 32"
  shows "connectWait E (rounds s) s \<noteq> None"
proof -
  obtain start s0 where m: "call_millis E s = (start, s0)" by (cases "call_millis E s")
  have t0: "connectionTimeoutMs s0 = connectionTimeoutMs s"
    using same_fields_call_millis [OF m] by (simp add: same_fields_def)
  let ?n = "unat (connectionTimeoutMs s) div 100 + 1"
  have "unat (connectionTimeoutMs s0) < unat (clock_reading E (world s0) - start) + 100 * ?n"
    using div_mult_mod_eq [of "unat (connectionTimeoutMs s)" 100]
      mod_less_divisor [of 100 "unat (connectionTimeoutMs s)"] t0
    by simp
  then have "connectWait_loop E (Suc ?n) start s0 \<noteq> None"
    using assms t0 by (intro wait_round [of E J]) simp_all
  then show ?thesis using m by (simp add: connectWait_def rounds_def)
qed


lemma wf_registry_slot:
  assumes "wf_registry s" "index < numKnownNetworks s"
  shows "slot s index \<noteq> None"
proof -
  have len: "index < length (knownNetworks s)" using assms by (simp add: wf_registry_def)
  have "known s ! index \<in> set (known s)"
    using assms by (intro nth_mem) (simp add: known_def wf_registry_def)
  moreover have "known s ! index = knownNetworks s ! index" using assms(2) by (simp add: known_def)
  ultimately have "knownNetworks s ! index \<noteq> None"
    using assms(1) by (metis wf_registry_def)
  then show ?thesis using len by (simp add: slot_def)
qed

text \<open>
  So do the loop over the entries and \<^verbatim>\<open>startup\<close>, when every slot in use is written;
  and by the lemmas on fuel the result is the same with any more of it.
\<close>

lemma connect_loop_returns:
  "ticking E J \<Longrightarrow> n = rounds s \<Longrightarrow>
   unat (connectionTimeoutMs s) + J < 2 ^ 32 \<Longrightarrow> wf_registry s \<Longrightarrow>
   connect_loop E n index s \<noteq> None"
proof (induction E n index s rule: connect_loop.induct)
  case (1 E n index s)
  show ?case
  proof (cases "index < numKnownNetworks s")
    case False
    then show ?thesis by (simp add: connect_loop.simps)
  next
    case True
    then obtain e where e: "slot s index = Some e"
      using wf_registry_slot [OF "1.prems"(4)] by auto
    let ?b = "WiFi_begin E (Some (ssid e, passwd e)) s"
    have tb: "connectionTimeoutMs ?b = connectionTimeoutMs s" by (simp add: WiFi_begin_def)
    have "connectWait E (rounds ?b) ?b \<noteq> None"
      by (rule connectWait_returns [OF "1.prems"(1)]) (use tb "1.prems"(3) in simp)
    then obtain ok1 s1 where w: "connectWait E n ?b = Some (ok1, s1)"
      using "1.prems"(2) tb by (auto simp: rounds_def)
    show ?thesis
    proof (cases ok1)
      case True
      then show ?thesis using \<open>index < numKnownNetworks s\<close> e w
        by (subst connect_loop.simps) simp
    next
      case False
      have f: "same_config s s1" "same_registry s s1" using attempt_frame [OF w] by simp_all
      have "connect_loop E n (Suc index) s1 \<noteq> None"
      proof (rule "1.IH" [OF True e w _ False])
        show "(ok1, s1) = (ok1, s1)" by simp
        show "ticking E J" by (rule "1.prems"(1))
        show "n = rounds s1"
          using "1.prems"(2) f(1) by (simp add: same_config_def rounds_def)
        show "unat (connectionTimeoutMs s1) + J < 2 ^ 32"
          using "1.prems"(3) f(1) by (simp add: same_config_def)
        show "wf_registry s1" using "1.prems"(4) same_registry_inv(1) [OF f(2)] by simp
      qed
      then show ?thesis using False True e w
        by (subst connect_loop.simps) simp
    qed
  qed
qed

lemma connectToNetwork_returns:
  assumes tick: "ticking E J" and room: "unat (connectionTimeoutMs s) + J < 2 ^ 32"
    and wf: "wf_registry s"
  shows "connectToNetwork K E (rounds s) s \<noteq> None"
proof -
  let ?n = "rounds s"
  obtain st s0 where st: "WiFi_status E s = (st, s0)" by (cases "WiFi_status E s")
  have f0: "same_config s s0" "same_registry s s0"
    using same_fields_WiFi_status [OF st] same_fields_config by blast+
  have t0: "connectionTimeoutMs s0 = connectionTimeoutMs s" "wf_registry s0"
    "numKnownNetworks s0 = numKnownNetworks s"
    using f0 wf same_registry_inv(1) [OF f0(2)] by (simp_all add: same_config_def same_registry_def)
  show ?thesis
  proof (cases "st = WL_CONNECTED \<or> numKnownNetworks s0 = 0")
    case True
    then show ?thesis using st by (auto simp: connectToNetwork_def)
  next
    case False
    then obtain e where e: "slot s0 0 = Some e"
      using wf_registry_slot [OF t0(2), of 0] by auto
    have loop: "connect_loop E ?n i s1 \<noteq> None"
      if "same_config s0 s1" "same_registry s0 s1" for i s1
      by (rule connect_loop_returns [OF tick])
        (use that t0 room same_registry_inv(1) [OF that(2)] in \<open>simp_all add: same_config_def rounds_def\<close>)
    show ?thesis
    proof (cases "ssid e = []")
      case empty: True
      let ?b = "WiFi_begin E None s0"
      have "connectWait E (rounds ?b) ?b \<noteq> None"
        by (rule connectWait_returns [OF tick]) (use t0 room in \<open>simp add: WiFi_begin_def\<close>)
      then obtain ok1 s1 where w: "connectWait E ?n ?b = Some (ok1, s1)"
        using t0 by (auto simp: WiFi_begin_def rounds_def)
      have "connect_loop E ?n 1 s1 \<noteq> None" using loop attempt_frame [OF w] by simp
      then show ?thesis using st False e empty w
        by (auto simp: connectToNetwork_def)
    next
      case False
      have "connect_loop E ?n 0 s0 \<noteq> None"
        using loop [of s0] by (simp add: same_config_def same_registry_def)
      then show ?thesis using st \<open>\<not> (st = WL_CONNECTED \<or> numKnownNetworks s0 = 0)\<close> e False
        by (auto simp: connectToNetwork_def)
    qed
  qed
qed

lemma startup_returns:
  assumes "ticking E J" "unat (connectionTimeoutMs s) + J < 2 ^ 32" "wf_registry s"
  shows "startup K E (rounds s) s \<noteq> None"
proof -
  obtain ok1 s1 where "connectToNetwork K E (rounds s) s = Some (ok1, s1)"
    using connectToNetwork_returns [OF assms, of K] by auto
  then show ?thesis by (auto simp: startup_def split: prod.splits)
qed


lemma connectToNetwork_run:
  assumes tick: "ticking E J" and room: "unat (connectionTimeoutMs s) + J < 2 ^ 32"
    and wf: "wf_registry s"
  shows "\<exists>ok s'. \<forall>k. connectToNetwork K E (rounds s + k) s = Some (ok, s')"
proof -
  obtain ok s' where r: "connectToNetwork K E (rounds s) s = Some (ok, s')"
    using connectToNetwork_returns [OF assms, of K] by auto
  have "connectToNetwork K E (rounds s + k) s = Some (ok, s')" for k
    using r by (rule connectToNetwork_more_fuel)
  then show ?thesis by blast
qed

lemma startup_run:
  assumes tick: "ticking E J" and room: "unat (connectionTimeoutMs s) + J < 2 ^ 32"
    and wf: "wf_registry s"
  shows "\<exists>ok s'. \<forall>k. startup K E (rounds s + k) s = Some (ok, s')"
proof -
  obtain ok s' where r: "startup K E (rounds s) s = Some (ok, s')"
    using startup_returns [OF assms, of K] by auto
  have "startup K E (rounds s + k) s = Some (ok, s')" for k
    using r by (rule startup_more_fuel)
  then show ?thesis by blast
qed

text \<open>The simulated clock advances by the length of each delay.\<close>

lemma ticking_sim: "ticking (sim f) 100"
  by (simp add: ticking_def clock_reading_def after_round_def sim_def)

subsection \<open>The log of the attempts\<close>

lemma WiFi_status_calls:
  "WiFi_status E s = (st, s1) \<Longrightarrow> calls s1 = calls s @ [Status st]"
  by (auto simp: WiFi_status_def split: prod.splits)

lemma call_millis_calls:
  "call_millis E s = (t, s1) \<Longrightarrow> calls s1 = calls s @ [Millis t]"
  by (auto simp: call_millis_def split: prod.splits)

lemma connectWait_loop_polls:
  "connectWait_loop E n start s = Some (ok, s') \<Longrightarrow>
   \<exists>evs. calls s' = calls s @ evs \<and> polls (connectionTimeoutMs s) start evs ok"
proof (induction n arbitrary: s)
  case 0
  then show ?case by simp
next
  case (Suc n)
  obtain st s1 where st: "WiFi_status E s = (st, s1)" by (cases "WiFi_status E s")
  obtain now s2 where now: "call_millis E s1 = (now, s2)" by (cases "call_millis E s1")
  have c1: "calls s1 = calls s @ [Status st]" using st by (rule WiFi_status_calls)
  have c2: "calls s2 = calls s @ [Status st, Millis now]"
    using call_millis_calls [OF now] c1 by simp
  have t2: "connectionTimeoutMs s2 = connectionTimeoutMs s"
    using same_fields_WiFi_status [OF st] same_fields_call_millis [OF now]
    by (simp add: same_fields_def)
  consider (joined) "st = WL_CONNECTED" | (refused) "st = WL_CONNECT_FAILED"
    | (late) "st \<noteq> WL_CONNECTED" "st \<noteq> WL_CONNECT_FAILED" "now - start > connectionTimeoutMs s"
    | (wait) "st \<noteq> WL_CONNECTED" "st \<noteq> WL_CONNECT_FAILED" "\<not> now - start > connectionTimeoutMs s"
    by blast
  then show ?case
  proof cases
    case joined
    then have "ok" "s' = s1" using Suc.prems st by auto
    then show ?thesis using c1 joined polls.joined by auto
  next
    case refused
    then have "\<not> ok" "s' = s1" using Suc.prems st by auto
    then show ?thesis using c1 refused polls.refused by auto
  next
    case late
    then have "\<not> ok" "s' = call_esp_wifi_disconnect E s2"
      using Suc.prems st now t2 by auto
    then have "calls s' = calls s @ [Status st, Millis now, Esp_wifi_disconnect]" "\<not> ok"
      using c2 by (simp_all add: call_esp_wifi_disconnect_def)
    then show ?thesis using polls.timed_out [OF late] by auto
  next
    case wait
    let ?d = "call_delay E 100 s2"
    have r: "connectWait_loop E n start ?d = Some (ok, s')"
      using Suc.prems st now t2 wait by auto
    have cd: "calls ?d = calls s @ [Status st, Millis now, Delay 100]"
      using c2 by (simp add: call_delay_def)
    have td: "connectionTimeoutMs ?d = connectionTimeoutMs s"
      using t2 by (simp add: call_delay_def)
    obtain evs where evs: "calls s' = calls ?d @ evs" "polls (connectionTimeoutMs s) start evs ok"
      using Suc.IH [OF r] td by auto
    have "polls (connectionTimeoutMs s) start (Status st # Millis now # Delay 100 # evs) ok"
      using wait evs(2) by (rule polls.again)
    then show ?thesis using evs(1) cd by auto
  qed
qed

lemma attempt_log:
  assumes "connectWait E n (WiFi_begin E cred s) = Some (ok, s')"
  shows "\<exists>evs. calls s' = calls s @ evs \<and> attempt (connectionTimeoutMs s) cred ok evs"
proof -
  let ?b = "WiFi_begin E cred s"
  obtain start s0 where m: "call_millis E ?b = (start, s0)" by (cases "call_millis E ?b")
  have c0: "calls s0 = calls s @ [Begin cred, Millis start]"
    using call_millis_calls [OF m] by (simp add: WiFi_begin_def)
  have t0: "connectionTimeoutMs s0 = connectionTimeoutMs s"
    using same_fields_call_millis [OF m] by (simp add: same_fields_def WiFi_begin_def)
  have "connectWait_loop E n start s0 = Some (ok, s')"
    using assms m by (simp add: connectWait_def)
  then obtain evs where evs: "calls s' = calls s0 @ evs" "polls (connectionTimeoutMs s) start evs ok"
    using connectWait_loop_polls [of E n start s0 ok s'] t0 by auto
  have "attempt (connectionTimeoutMs s) cred ok (Begin cred # Millis start # evs)"
    using evs(2) by (rule attempt.intros)
  then show ?thesis using evs(1) c0 by auto
qed

lemma same_registry_literal: "same_registry s s' \<Longrightarrow> literal s' = literal s"
  by (auto simp: same_registry_def literal_def slot_def fun_eq_iff)

lemma connect_loop_tries:
  "connect_loop E n index s = Some (ok, s') \<Longrightarrow>
   \<exists>evs r. calls s' = calls s @ evs \<and>
     tries (connectionTimeoutMs s) (map (literal s) [index..<numKnownNetworks s]) evs r \<and>
     (case r of
        None \<Rightarrow> \<not> ok \<and> connectedIndex s' = connectedIndex s
      | Some k \<Rightarrow> ok \<and> index + k < numKnownNetworks s \<and>
          connectedIndex s' = int (index + k) mod 256)"
proof (induction E n index s rule: connect_loop.induct)
  case (1 E n index s)
  show ?case
  proof (cases "index < numKnownNetworks s")
    case False
    then have "s' = s" "\<not> ok" using "1.prems" by (simp_all add: connect_loop.simps)
    moreover have "tries (connectionTimeoutMs s) (map (literal s) [index..<numKnownNetworks s]) [] None"
      using False by (simp add: tries.none_left)
    ultimately show ?thesis by (intro exI [of _ "[]"] exI [of _ None]) simp
  next
    case True
    then obtain e where e: "slot s index = Some e"
      using "1.prems" by (cases "slot s index") (simp_all add: connect_loop.simps)
    let ?c = "Some (ssid e, passwd e)"
    let ?b = "WiFi_begin E ?c s"
    obtain ok1 s1 where w: "connectWait E n ?b = Some (ok1, s1)"
      using "1.prems" True e by (cases "connectWait E n ?b") (auto simp: connect_loop.simps)
    obtain evs where evs: "calls s1 = calls s @ evs" "attempt (connectionTimeoutMs s) ?c ok1 evs"
      using attempt_log [OF w] by blast
    have f: "same_config s s1" "same_registry s s1" "connectedIndex s1 = connectedIndex s"
      using attempt_frame [OF w] connectWait_frame [OF w] same_fields_WiFi_begin [of s E ?c]
      by (simp_all add: same_fields_def)
    have upt: "map (literal s) [index..<numKnownNetworks s] =
        ?c # map (literal s) [Suc index..<numKnownNetworks s]"
      using True e by (simp add: upt_conv_Cons literal_def)
    show ?thesis
    proof (cases ok1)
      case ok1: True
      then have "s' = setConnected (int index) s1" "ok"
        using "1.prems" True e w by (simp_all add: connect_loop.simps)
      then have "calls s' = calls s @ evs" "connectedIndex s' = int (index + 0) mod 256" "ok"
        using evs(1) by (simp_all add: setConnected_def)
      moreover have "tries (connectionTimeoutMs s) (map (literal s) [index..<numKnownNetworks s]) evs (Some 0)"
        unfolding upt using evs(2) ok1 by (simp add: tries.won)
      ultimately show ?thesis using True
        by (intro exI [of _ evs] exI [of _ "Some 0"]) simp
    next
      case False
      then have r: "connect_loop E n (Suc index) s1 = Some (ok, s')"
        using "1.prems" True e w by (simp add: connect_loop.simps)
      obtain evs' r where r': "calls s' = calls s1 @ evs'"
        "tries (connectionTimeoutMs s1) (map (literal s1) [Suc index..<numKnownNetworks s1]) evs' r"
        "case r of
           None \<Rightarrow> \<not> ok \<and> connectedIndex s' = connectedIndex s1
         | Some k \<Rightarrow> ok \<and> Suc index + k < numKnownNetworks s1 \<and>
             connectedIndex s' = int (Suc index + k) mod 256"
        using "1.IH" [OF True e w _ False r] by auto
      have same: "connectionTimeoutMs s1 = connectionTimeoutMs s" "literal s1 = literal s"
        "numKnownNetworks s1 = numKnownNetworks s"
        using f same_registry_literal [OF f(2)] by (simp_all add: same_config_def same_registry_def)
      have "tries (connectionTimeoutMs s) (map (literal s) [index..<numKnownNetworks s])
          (evs @ evs') (map_option Suc r)"
        unfolding upt using evs(2) r'(2) False same by (simp add: tries.lost)
      moreover have "calls s' = calls s @ evs @ evs'" using r'(1) evs(1) by simp
      moreover have "case map_option Suc r of
           None \<Rightarrow> \<not> ok \<and> connectedIndex s' = connectedIndex s
         | Some k \<Rightarrow> ok \<and> index + k < numKnownNetworks s \<and>
             connectedIndex s' = int (index + k) mod 256"
        using r'(3) same f(3) by (cases r) simp_all
      ultimately show ?thesis
        by (intro exI [of _ "evs @ evs'"] exI [of _ "map_option Suc r"]) simp
    qed
  qed
qed

lemma connectWait_loop_numeral:
  "connectWait_loop E (numeral k) start s =
     (case WiFi_status E s of
        (status, s1) \<Rightarrow>
          if status = WL_CONNECTED then Some (True, s1)
          else if status = WL_CONNECT_FAILED then Some (False, s1)
          else
            (case call_millis E s1 of
               (now, s2) \<Rightarrow>
                 if now - start > connectionTimeoutMs s2
                 then Some (False, call_esp_wifi_disconnect E s2)
                 else connectWait_loop E (pred_numeral k) start (call_delay E 100 s2)))"
proof -
  have "connectWait_loop E (numeral k) start s = connectWait_loop E (Suc (pred_numeral k)) start s"
    by (simp only: numeral_eq_Suc)
  then show ?thesis by (simp only: connectWait_loop.simps)
qed







subsection \<open>Attempts in insertion order\<close>

lemma credentials_stored:
  assumes "numKnownNetworks s \<noteq> 0" "slot s 0 = Some e" "ssid e = []"
  shows "credentials s = None # map (literal s) [Suc 0..<numKnownNetworks s]"
proof -
  have "[0..<numKnownNetworks s] = 0 # [Suc 0..<numKnownNetworks s]"
    using assms(1) by (simp add: upt_conv_Cons)
  moreover have "credential s 0 = None" using assms by (simp add: credential_def)
  moreover have "map (credential s) [Suc 0..<numKnownNetworks s] = map (literal s) [Suc 0..<numKnownNetworks s]"
    by (rule map_cong) (auto simp: credential_def literal_def split: option.splits)
  ultimately show ?thesis by (simp add: credentials_def)
qed

lemma credentials_literal:
  assumes "slot s 0 = Some e" "ssid e \<noteq> []"
  shows "credentials s = map (literal s) [0..<numKnownNetworks s]"
  unfolding credentials_def
  by (rule map_cong) (use assms in \<open>auto simp: credential_def literal_def split: option.splits\<close>)

lemma connectToNetwork_tries:
  assumes run: "connectToNetwork K E n s = Some (ok, s')"
    and st: "WiFi_status E s = (st, s0)" and nc: "st \<noteq> WL_CONNECTED"
  shows "\<exists>evs r. calls s' = calls s @ Status st # evs \<and>
     tries (connectionTimeoutMs s) (credentials s) evs r \<and>
     (case r of
        None \<Rightarrow> \<not> ok \<and> connectedIndex s' = INDEX_DISCONNECTED K
      | Some k \<Rightarrow> ok \<and> k < numKnownNetworks s \<and> connectedIndex s' = int k mod 256)"
proof -
  have c0: "calls s0 = calls s @ [Status st]" using st by (rule WiFi_status_calls)
  have f0: "same_config s s0" "same_registry s s0"
    using same_fields_WiFi_status [OF st] same_fields_config by blast+
  have same0: "connectionTimeoutMs s0 = connectionTimeoutMs s" "literal s0 = literal s"
    "numKnownNetworks s0 = numKnownNetworks s" "slot s0 0 = slot s 0"
    using f0 same_registry_literal [OF f0(2)]
    by (simp_all add: same_config_def same_registry_def slot_def)
  from run st show ?thesis
  proof (cases rule: connectToNetwork_cases)
    case already
    then show ?thesis using nc by simp
  next
    case empty
    then have "credentials s = []" using same0 by (simp add: credentials_def)
    then have "tries (connectionTimeoutMs s) (credentials s) [] None" by (simp add: tries.none_left)
    moreover have "calls s' = calls s @ Status st # []" "connectedIndex s' = INDEX_DISCONNECTED K"
      using empty c0 by (simp_all add: setDisconnected_def)
    ultimately show ?thesis using empty(3)
      by (intro exI [of _ "[]"] exI [of _ None]) simp
  next
    case (stored_ok e s1)
    have cr: "credentials s = None # map (literal s) [Suc 0..<numKnownNetworks s]"
      using credentials_stored [of s e] stored_ok same0 by simp
    obtain evs where evs: "calls s1 = calls s0 @ evs" "attempt (connectionTimeoutMs s0) None True evs"
      using attempt_log [OF stored_ok(5)] by blast
    have "tries (connectionTimeoutMs s) (credentials s) evs (Some 0)"
      unfolding cr using evs(2) same0 by (simp add: tries.won)
    moreover have "calls s' = calls s @ Status st # evs" "connectedIndex s' = int 0 mod 256"
      using stored_ok(7) evs(1) c0 by (simp_all add: setConnected_def)
    ultimately show ?thesis using stored_ok(2,6) same0
      by (intro exI [of _ evs] exI [of _ "Some 0"]) simp
  next
    case (stored_fail e s1 s2)
    have cr: "credentials s = None # map (literal s) [Suc 0..<numKnownNetworks s]"
      using credentials_stored [of s e] stored_fail same0 by simp
    obtain evs where evs: "calls s1 = calls s0 @ evs" "attempt (connectionTimeoutMs s0) None False evs"
      using attempt_log [OF stored_fail(5)] by blast
    have f1: "same_config s0 s1" "same_registry s0 s1" "connectedIndex s1 = connectedIndex s0"
      using attempt_frame [OF stored_fail(5)] connectWait_frame [OF stored_fail(5)]
        same_fields_WiFi_begin [of s0 E None]
      by (simp_all add: same_fields_def)
    have same1: "connectionTimeoutMs s1 = connectionTimeoutMs s" "literal s1 = literal s"
      "numKnownNetworks s1 = numKnownNetworks s"
      using f1 same0 same_registry_literal [OF f1(2)]
      by (simp_all add: same_config_def same_registry_def)
    obtain evs' r where r: "calls s2 = calls s1 @ evs'"
      "tries (connectionTimeoutMs s1) (map (literal s1) [1..<numKnownNetworks s1]) evs' r"
      "case r of
         None \<Rightarrow> \<not> ok \<and> connectedIndex s2 = connectedIndex s1
       | Some k \<Rightarrow> ok \<and> 1 + k < numKnownNetworks s1 \<and> connectedIndex s2 = int (1 + k) mod 256"
      using connect_loop_tries [OF stored_fail(6)] by auto
    have "tries (connectionTimeoutMs s) (credentials s) (evs @ evs') (map_option Suc r)"
      unfolding cr using evs(2) r(2) same0 same1 by (simp add: tries.lost)
    moreover have "calls s' = calls s @ Status st # evs @ evs'"
      using stored_fail(7) r(1) evs(1) c0 by (simp add: setDisconnected_def)
    moreover have "case map_option Suc r of
        None \<Rightarrow> \<not> ok \<and> connectedIndex s' = INDEX_DISCONNECTED K
      | Some k \<Rightarrow> ok \<and> k < numKnownNetworks s \<and> connectedIndex s' = int k mod 256"
      using r(3) stored_fail(7) same1 by (cases r) (simp_all add: setDisconnected_def)
    ultimately show ?thesis
      by (intro exI [of _ "evs @ evs'"] exI [of _ "map_option Suc r"]) simp
  next
    case (literal e s2)
    have cr: "credentials s = map (literal s) [0..<numKnownNetworks s]"
      using credentials_literal [of s e] literal same0 by simp
    obtain evs r where r: "calls s2 = calls s0 @ evs"
      "tries (connectionTimeoutMs s0) (map (Spec2Isabelle.literal s0) [0..<numKnownNetworks s0]) evs r"
      "case r of
         None \<Rightarrow> \<not> ok \<and> connectedIndex s2 = connectedIndex s0
       | Some k \<Rightarrow> ok \<and> 0 + k < numKnownNetworks s0 \<and> connectedIndex s2 = int (0 + k) mod 256"
      using connect_loop_tries [OF literal(5)] by auto
    have "tries (connectionTimeoutMs s) (credentials s) evs r"
      unfolding cr using r(2) same0 by simp
    moreover have "calls s' = calls s @ Status st # evs"
      using literal(6) r(1) c0 by (simp add: setDisconnected_def)
    moreover have "case r of
        None \<Rightarrow> \<not> ok \<and> connectedIndex s' = INDEX_DISCONNECTED K
      | Some k \<Rightarrow> ok \<and> k < numKnownNetworks s \<and> connectedIndex s' = int k mod 256"
      using r(3) literal(6) same0 by (cases r) (simp_all add: setDisconnected_def)
    ultimately show ?thesis
      by (intro exI [of _ evs] exI [of _ r]) simp
  qed
qed

lemma startupAccessPoint_calls:
  assumes "startupAccessPoint K E s = (ok, s')"
  shows "calls s' = calls s @ [StartConfigPortal (APSsid s) (APPasswd s) ok]"
proof -
  obtain p s1 where p: "call_startConfigPortal E (APSsid s) (APPasswd s) s = (p, s1)"
    by (cases "call_startConfigPortal E (APSsid s) (APPasswd s) s")
  have c1: "calls s1 = calls s @ [StartConfigPortal (APSsid s) (APPasswd s) p]"
    using p by (auto simp: call_startConfigPortal_def split: prod.splits)
  from assms p show ?thesis
  proof (cases rule: startupAccessPoint_cases)
    case failed
    then show ?thesis using c1 by simp
  next
    case known
    then show ?thesis using c1 by (simp add: setConnected_def)
  next
    case (learned added s2)
    have "calls s2 = calls s1"
      using addKnownNetwork_settings [of s1 K "getSSID E (world s1)" "getPassword E (world s1)"]
        learned(4) by (simp add: same_settings_def)
    then show ?thesis using learned c1 by (simp add: setConnected_def)
  qed
qed

lemma abc_device_eval:
  "abc_device = (initial_fields (hdr 8) sim_idle)
     \<lparr>numKnownNetworks := 3, allocatedKnownNetworks := 4,
      knownNetworks := [Some \<lparr>ssid = ''A'', passwd = ''a''\<rparr>, Some \<lparr>ssid = ''B'', passwd = ''b''\<rparr>,
                        Some \<lparr>ssid = ''C'', passwd = ''c''\<rparr>, None]\<rparr>"
  by (simp add: abc_device_def registry_defs WiFiBase_def initial_fields_def hdr_def replicate_small)

lemma abc_device_startup:
  "startup (hdr 8) (sim (only ''B'')) 2 abc_device = Some (True, abc_joined)"
  by (simp add: abc_joined_def abc_device_eval model_defs registry_defs connectWait_loop_numeral
        sim_defs initial_fields_def)

lemma abc_device_reachable: "reachable (hdr 8) (sim (only ''B'')) abc_device"
  unfolding abc_device_def by (intro reachable_add_all reachable.constructed)

text \<open>The run on the device with 257 networks.\<close>

lemma net_inj: "(net i = net j) = (i = j)"
  by (auto simp: net_def dest: arg_cong [where f = length])

lemma add_all_settings: "same_settings s (snd (add_all K s cs))"
proof (induction cs arbitrary: s)
  case Nil
  then show ?case by (simp add: same_settings_def)
next
  case (Cons c cs)
  obtain name pw where c: "c = (name, pw)" by (cases c)
  show ?case
    unfolding c add_all_Cons
    using Cons.IH [of "snd (addKnownNetwork K s name pw)"] addKnownNetwork_settings [of s K name pw]
    by (simp add: same_settings_def)
qed

lemma many_device_holds: "holds many_device (map (\<lambda>i. (net i, ''pw'')) [0..<257])"
proof -
  let ?cs = "map (\<lambda>i. (net i, ''pw'')) [0..<257]"
  have d: "distinct (map fst ?cs)"
    by (simp add: distinct_map comp_def inj_on_def net_inj)
  then have f: "foldl spec_add [] ?cs = ?cs" using foldl_spec_add_new [of "[]" ?cs] by simp
  have "holds (snd (add_all (hdr 512) (initial_fields (hdr 512) sim_idle) ?cs)) (foldl spec_add [] ?cs)"
    using add_all_refines [of "initial_fields (hdr 512) sim_idle" "[]" "hdr 512" ?cs]
      holds_initial [of "hdr 512" sim_idle] d
    unfolding f by (simp add: hdr_def)
  then show ?thesis unfolding f by (simp add: many_device_def WiFiBase_def)
qed

lemma many_device_fields:
  "numKnownNetworks many_device = 257"
  "i < 257 \<Longrightarrow> slot many_device i = Some \<lparr>ssid = net i, passwd = ''pw''\<rparr>"
  "world many_device = sim_idle" "calls many_device = []"
proof -
  show "numKnownNetworks many_device = 257" using holds_num [OF many_device_holds] by simp
  show "slot many_device i = Some \<lparr>ssid = net i, passwd = ''pw''\<rparr>" if "i < 257"
    using holds_slot [OF many_device_holds, of i] that by (simp add: entry_def)
  have "same_settings (WiFiBase (hdr 512) (sim (only (net 256))) False sim_idle) many_device"
    unfolding many_device_def by (rule add_all_settings)
  then show "world many_device = sim_idle" "calls many_device = []"
    by (simp_all add: same_settings_def WiFiBase_def initial_fields_def)
qed


lemma only_wait:
  "connectWait (sim (only good)) (Suc n) (WiFi_begin (sim (only good)) (Some (name, pw)) s) =
     Some (name = good,
       s\<lparr>world := (world s)\<lparr>sim_link := only good (Some (name, pw))\<rparr>,
         calls := calls s @ [Begin (Some (name, pw)), Millis (sim_clock (world s)),
                             Status (only good (Some (name, pw)))]\<rparr>)"
  by (simp add: connectWait_def WiFi_begin_def call_millis_def WiFi_status_def sim_def only_def)

lemma only_connect_loop:
  assumes "index \<le> g" "g < numKnownNetworks s"
    and "\<forall>j. index \<le> j \<and> j \<le> g \<longrightarrow> slot s j = Some \<lparr>ssid = net j, passwd = pw\<rparr>"
  shows "connect_loop (sim (only (net g))) (Suc n) index s =
     Some (True,
       s\<lparr>connectedIndex := int g mod 256,
         world := (world s)\<lparr>sim_link := WL_CONNECTED\<rparr>,
         calls := calls s @
           concat (map (\<lambda>i. [Begin (Some (net i, pw)), Millis (sim_clock (world s)),
                               Status WL_CONNECT_FAILED]) [index..<g]) @
           [Begin (Some (net g, pw)), Millis (sim_clock (world s)), Status WL_CONNECTED]\<rparr>)"
  using assms
proof (induction "g - index" arbitrary: index s)
  case 0
  then have i: "index = g" by simp
  have e: "slot s g = Some \<lparr>ssid = net g, passwd = pw\<rparr>" using "0.prems"(3) i by simp
  show ?case
    unfolding i using "0.prems"(2) e
    by (subst connect_loop.simps) (simp add: only_wait only_def setConnected_def)
next
  case (Suc d)
  then have lt: "index < g" by simp
  have e: "slot s index = Some \<lparr>ssid = net index, passwd = pw\<rparr>" using Suc.prems(3) lt by simp
  let ?s1 = "s\<lparr>world := (world s)\<lparr>sim_link := WL_CONNECT_FAILED\<rparr>,
         calls := calls s @ [Begin (Some (net index, pw)), Millis (sim_clock (world s)),
                             Status WL_CONNECT_FAILED]\<rparr>"
  have ne: "net index \<noteq> net g" using lt by (simp add: net_inj)
  have step: "connect_loop (sim (only (net g))) (Suc n) index s =
      connect_loop (sim (only (net g))) (Suc n) (Suc index) ?s1"
    using lt Suc.prems(2) e ne
    by (subst connect_loop.simps) (simp add: only_wait only_def)
  have "connect_loop (sim (only (net g))) (Suc n) (Suc index) ?s1 =
     Some (True,
       ?s1\<lparr>connectedIndex := int g mod 256,
         world := (world ?s1)\<lparr>sim_link := WL_CONNECTED\<rparr>,
         calls := calls ?s1 @
           concat (map (\<lambda>i. [Begin (Some (net i, pw)), Millis (sim_clock (world ?s1)),
                               Status WL_CONNECT_FAILED]) [Suc index..<g]) @
           [Begin (Some (net g, pw)), Millis (sim_clock (world ?s1)), Status WL_CONNECTED]\<rparr>)"
  proof (rule Suc.hyps(1))
    show "d = g - Suc index" using Suc.hyps(2) by simp
    show "Suc index \<le> g" using lt by simp
    show "g < numKnownNetworks ?s1" using Suc.prems(2) by simp
    have "slot ?s1 j = slot s j" for j by (simp add: slot_def)
    then show "\<forall>j. Suc index \<le> j \<and> j \<le> g \<longrightarrow> slot ?s1 j = Some \<lparr>ssid = net j, passwd = pw\<rparr>"
      using Suc.prems(3) by simp
  qed
  then show ?case unfolding step using lt by (simp add: upt_conv_Cons)
qed

lemma many_device_startup:
  "startup (hdr 512) (sim (only (net 256))) 1 many_device = Some (True, many_joined)"
proof -
  let ?E = "sim (only (net 256))"
  let ?s0 = "many_device\<lparr>calls := [Status WL_IDLE_STATUS]\<rparr>"
  have st: "WiFi_status ?E many_device = (WL_IDLE_STATUS, ?s0)"
    by (simp add: WiFi_status_def many_device_fields sim_def sim_idle_def)
  have "slot ?s0 j = slot many_device j" for j by (simp add: slot_def)
  then have slots: "\<forall>j. 0 \<le> j \<and> j \<le> 256 \<longrightarrow> slot ?s0 j = Some \<lparr>ssid = net j, passwd = ''pw''\<rparr>"
    using many_device_fields(2) by simp
  have loop: "connect_loop ?E (Suc 0) 0 ?s0 = Some (True, many_joined)"
    using only_connect_loop [of 0 256 ?s0 "''pw''" 0] slots
    by (simp add: many_device_fields many_joined_def sim_idle_def)
  have "connectToNetwork (hdr 512) ?E 1 many_device = Some (True, many_joined)"
    using st loop slots
    by (simp add: connectToNetwork_def many_device_fields net_def)
  then show ?thesis by (simp add: startup_def)
qed

text \<open>
  C4. In a reachable state, with the link not up already and a ticking clock,
  \<^verbatim>\<open>startup()\<close> returns, and it has attempted the entries in insertion order from index
  0: the log after the first status query is a run of attempts over the entries'
  credentials in order. The first attempt that succeeds ends the run: nothing is
  attempted or called after it, \<^verbatim>\<open>connected()\<close> is true, and the index of the entry,
  when it is below 256, is the connected index. If every attempt fails, the only call
  that may follow is the start of the config portal. The maximum is taken to be at most
  \<open>2\<^sup>1\<^sup>5\<close> and the reserved index not to be an index in use.
\<close>

theorem startup_attempts_in_order:
  assumes reach: "reachable K E s" and max: "MAX_KNOWN_NETWORKS K \<le> 32768"
    and tick: "ticking E J" and room: "unat (connectionTimeoutMs s) + J < 2 ^ 32"
    and nc: "fst (wifi_status E (world s)) \<noteq> WL_CONNECTED"
    and sent: "valid_sentinel K (numKnownNetworks s)"
  shows "\<exists>ok s' evs r tail.
     (\<forall>k. startup K E (rounds s + k) s = Some (ok, s')) \<and>
     calls s' = calls s @ Status (fst (wifi_status E (world s))) # evs @ tail \<and>
     tries (connectionTimeoutMs s) (credentials s) evs r \<and> (r = None \<or> ok) \<and>
     (case r of
        Some i \<Rightarrow> tail = [] \<and> i < numKnownNetworks s \<and> connected K s' \<and>
          (i < 256 \<longrightarrow> connectedIndex s' = int i)
      | None \<Rightarrow> (tail = [] \<and> \<not> ok) \<or>
          (\<exists>p. tail = [StartConfigPortal (APSsid s) (APPasswd s) p]))"
proof -
  let ?st = "fst (wifi_status E (world s))"
  have wf: "wf_registry s" using reachable_registry [OF reach max] by simp
  obtain ok s' where all: "\<And>k. startup K E (rounds s + k) s = Some (ok, s')"
    using startup_run [OF tick room wf, of K] by blast
  have run: "startup K E (rounds s) s = Some (ok, s')" using all [of 0] by simp
  obtain s0 where st: "WiFi_status E s = (?st, s0)"
    by (cases "wifi_status E (world s)") (simp add: WiFi_status_def)
  have first: "\<exists>evs r. calls s1 = calls s @ Status ?st # evs \<and>
     tries (connectionTimeoutMs s) (credentials s) evs r \<and>
     (case r of
        None \<Rightarrow> \<not> ok1 \<and> connectedIndex s1 = INDEX_DISCONNECTED K
      | Some i \<Rightarrow> ok1 \<and> i < numKnownNetworks s \<and> connectedIndex s1 = int i mod 256)"
    if "connectToNetwork K E (rounds s) s = Some (ok1, s1)" for ok1 s1
    using connectToNetwork_tries [OF that st nc] .
  have good: "connected K s1 \<and> (i < 256 \<longrightarrow> connectedIndex s1 = int i)"
    if "i < numKnownNetworks s" "connectedIndex s1 = int i mod 256" for i s1
  proof -
    have "0 \<le> int i mod 256" "int i mod 256 \<le> int i" by (simp_all add: zmod_le_nonneg_dividend)
    then have "int i mod 256 \<noteq> INDEX_DISCONNECTED K"
      using sent that(1) by (auto simp: valid_sentinel_def)
    then show ?thesis using that(2) by (simp add: connected_def)
  qed
  have "\<exists>evs r tail.
     calls s' = calls s @ Status ?st # evs @ tail \<and>
     tries (connectionTimeoutMs s) (credentials s) evs r \<and> (r = None \<or> ok) \<and>
     (case r of
        Some i \<Rightarrow> tail = [] \<and> i < numKnownNetworks s \<and> connected K s' \<and>
          (i < 256 \<longrightarrow> connectedIndex s' = int i)
      | None \<Rightarrow> (tail = [] \<and> \<not> ok) \<or>
          (\<exists>p. tail = [StartConfigPortal (APSsid s) (APPasswd s) p]))"
    using run
  proof (cases rule: startup_cases)
    case joined
    obtain evs r where r: "calls s' = calls s @ Status ?st # evs"
      "tries (connectionTimeoutMs s) (credentials s) evs r"
      "case r of None \<Rightarrow> \<not> True \<and> connectedIndex s' = INDEX_DISCONNECTED K
       | Some i \<Rightarrow> True \<and> i < numKnownNetworks s \<and> connectedIndex s' = int i mod 256"
      using first [OF joined(1)] by auto
    then obtain i where i: "r = Some i" "i < numKnownNetworks s" "connectedIndex s' = int i mod 256"
      by (cases r) auto
    show ?thesis
      using r(1,2) i good [OF i(2,3)] joined(2)
      by (intro exI [of _ evs] exI [of _ r] exI [of _ "[]"]) simp
  next
    case no_portal
    obtain evs r where r: "calls s' = calls s @ Status ?st # evs"
      "tries (connectionTimeoutMs s) (credentials s) evs r"
      "case r of None \<Rightarrow> \<not> False \<and> connectedIndex s' = INDEX_DISCONNECTED K
       | Some i \<Rightarrow> False \<and> i < numKnownNetworks s \<and> connectedIndex s' = int i mod 256"
      using first [OF no_portal(1)] by auto
    then have "r = None" by (cases r) auto
    then show ?thesis using r(1,2) no_portal(3)
      by (intro exI [of _ evs] exI [of _ r] exI [of _ "[]"]) simp
  next
    case (portal s1)
    obtain evs r where r: "calls s1 = calls s @ Status ?st # evs"
      "tries (connectionTimeoutMs s) (credentials s) evs r"
      "case r of None \<Rightarrow> \<not> False \<and> connectedIndex s1 = INDEX_DISCONNECTED K
       | Some i \<Rightarrow> False \<and> i < numKnownNetworks s \<and> connectedIndex s1 = int i mod 256"
      using first [OF portal(1)] by auto
    then have none: "r = None" by (cases r) auto
    have ap: "APSsid s1 = APSsid s" "APPasswd s1 = APPasswd s"
      using connectToNetwork_frame [OF portal(1)] by (simp_all add: same_config_def)
    have "calls s' = calls s @ Status ?st # evs @ [StartConfigPortal (APSsid s) (APPasswd s) ok]"
      using startupAccessPoint_calls [OF portal(3)] r(1) ap by simp
    then show ?thesis using r(2) none
      by (intro exI [of _ evs] exI [of _ r]
            exI [of _ "[StartConfigPortal (APSsid s) (APPasswd s) ok]"]) simp
  qed
  then show ?thesis using all by blast
qed

theorem startup_attempts_in_order_witness:
  "(\<forall>k. startup (hdr 8) (sim (only ''B'')) (102 + k) abc_device = Some (True, abc_joined)) \<and>
   tries 10000 [Some (''A'', ''a''), Some (''B'', ''b''), Some (''C'', ''c'')]
     [Begin (Some (''A'', ''a'')), Millis 0, Status WL_CONNECT_FAILED,
      Begin (Some (''B'', ''b'')), Millis 0, Status WL_CONNECTED] (Some 1) \<and>
   calls abc_joined =
     [Status WL_IDLE_STATUS,
      Begin (Some (''A'', ''a'')), Millis 0, Status WL_CONNECT_FAILED,
      Begin (Some (''B'', ''b'')), Millis 0, Status WL_CONNECTED] \<and>
   connectedIndex abc_joined = 1 \<and> connected (hdr 8) abc_joined"
proof -
  let ?E = "sim (only ''B'')"
  have f: "fst (wifi_status ?E (world abc_device)) = WL_IDLE_STATUS"
    "connectionTimeoutMs abc_device = 10000" "numKnownNetworks abc_device = 3"
    "calls abc_device = []" "rounds abc_device = 102"
    "credentials abc_device = [Some (''A'', ''a''), Some (''B'', ''b''), Some (''C'', ''c'')]"
    by (simp_all add: abc_device_eval initial_fields_def sim_defs rounds_def credentials_def
          credential_def slot_def upt_conv_Cons)
  have h: "MAX_KNOWN_NETWORKS (hdr 8) \<le> 32768"
    "unat (connectionTimeoutMs abc_device) + 100 < 2 ^ 32"
    "fst (wifi_status ?E (world abc_device)) \<noteq> WL_CONNECTED"
    "valid_sentinel (hdr 8) (numKnownNetworks abc_device)"
    unfolding f by (simp_all add: hdr_def valid_sentinel_def)
  have c: "calls abc_joined =
     [Status WL_IDLE_STATUS,
      Begin (Some (''A'', ''a'')), Millis 0, Status WL_CONNECT_FAILED,
      Begin (Some (''B'', ''b'')), Millis 0, Status WL_CONNECTED]"
    "connectedIndex abc_joined = 1"
    by (simp_all add: abc_joined_def)
  obtain ok s' evs r tail where
    run: "\<forall>k. startup (hdr 8) ?E (rounds abc_device + k) abc_device = Some (ok, s')"
    and log: "calls s' = calls abc_device @ Status (fst (wifi_status ?E (world abc_device))) # evs @ tail"
    and tr: "tries (connectionTimeoutMs abc_device) (credentials abc_device) evs r"
    and cases: "case r of
        Some i \<Rightarrow> tail = [] \<and> i < numKnownNetworks abc_device \<and> connected (hdr 8) s' \<and>
          (i < 256 \<longrightarrow> connectedIndex s' = int i)
      | None \<Rightarrow> (tail = [] \<and> \<not> ok) \<or>
          (\<exists>p. tail = [StartConfigPortal (APSsid abc_device) (APPasswd abc_device) p])"
    using startup_attempts_in_order [OF abc_device_reachable h(1) ticking_sim h(2-4)]
    by (elim exE conjE)
  have more: "startup (hdr 8) ?E (2 + k) abc_device = Some (True, abc_joined)" for k
    using abc_device_startup by (rule startup_more_fuel)
  have "startup (hdr 8) ?E (rounds abc_device + 0) abc_device = Some (ok, s')"
    using run by (rule spec)
  then have res: "ok = True" "s' = abc_joined" using more [of 100] f(5) by simp_all
  have l: "Status WL_IDLE_STATUS # evs @ tail = calls abc_joined" using log res f by simp
  have "r \<noteq> None"
  proof
    assume n: "r = None"
    then obtain p where "tail = [StartConfigPortal (APSsid abc_device) (APPasswd abc_device) p]"
      using cases res by auto
    then have "last (calls abc_joined) = StartConfigPortal (APSsid abc_device) (APPasswd abc_device) p"
      using l [symmetric] by simp
    then show False unfolding c by simp
  qed
  then obtain i where i: "r = Some i" by (cases r) simp_all
  then have t: "tail = []" "i < 3" "connected (hdr 8) abc_joined" "connectedIndex abc_joined = int i"
    using cases res f(3) by simp_all
  then have "i = 1" using c(2) by simp
  moreover have "evs = [Begin (Some (''A'', ''a'')), Millis 0, Status WL_CONNECT_FAILED,
      Begin (Some (''B'', ''b'')), Millis 0, Status WL_CONNECTED]"
    using l t(1) c(1) by simp
  ultimately have "tries 10000 [Some (''A'', ''a''), Some (''B'', ''b''), Some (''C'', ''c'')]
     [Begin (Some (''A'', ''a'')), Millis 0, Status WL_CONNECT_FAILED,
      Begin (Some (''B'', ''b'')), Millis 0, Status WL_CONNECTED] (Some 1)"
    using tr i f by simp
  moreover have "startup (hdr 8) ?E (102 + k) abc_device = Some (True, abc_joined)" for k
    using more [of "100 + k"] by (simp add: add.assoc [symmetric])
  ultimately show ?thesis using c t(3) by simp
qed

text \<open>
  The index is passed on as a \<^verbatim>\<open>uint8_t\<close>. On the device with 257 networks the first
  256 attempts are refused and the attempt of the entry at index 256 succeeds:
  \<^verbatim>\<open>startup()\<close> returns true with 0 as the connected index, the index of an entry whose
  attempt was refused.
\<close>

theorem startup_index_256_recorded_as_0:
  "startup (hdr 512) (sim (only (net 256))) 1 many_device = Some (True, many_joined) \<and>
   lookupKnownNetwork (hdr 512) many_device (net 256) = 256 \<and>
   slot many_device 256 = Some \<lparr>ssid = net 256, passwd = ''pw''\<rparr> \<and>
   only (net 256) (Some (net 256, ''pw'')) = WL_CONNECTED \<and>
   only (net 256) (Some (net 0, ''pw'')) = WL_CONNECT_FAILED \<and>
   connectedIndex many_joined = 0"
proof -
  have "distinct (map fst (map (\<lambda>i. (net i, ''pw'')) [0..<257]))"
    by (simp add: distinct_map comp_def inj_on_def net_inj)
  then have "lookupKnownNetwork (hdr 512) many_device (net 256) = 256"
    using holds_lookup [OF many_device_holds, of 256 "hdr 512"] by simp
  then show ?thesis
    using many_device_startup
    by (simp add: many_device_fields many_joined_def only_def net_inj)
qed

lemma stored_device_eval:
  "stored_device = (initial_fields (hdr 8) (sim_idle\<lparr>sim_stored := True\<rparr>))
     \<lparr>numKnownNetworks := 2, allocatedKnownNetworks := 2,
      knownNetworks := [Some \<lparr>ssid = [], passwd = []\<rparr>, Some \<lparr>ssid = ''B'', passwd = ''b''\<rparr>]\<rparr>"
  by (simp add: stored_device_def registry_defs WiFiBase_def initial_fields_def hdr_def
        replicate_small sim_def sim_idle_def)

lemma stored_device_connect:
  "connectToNetwork (hdr 8) (sim (only ''B'')) 2 stored_device = Some (True, stored_joined)"
  by (simp add: stored_joined_def stored_device_eval model_defs registry_defs
        connectWait_loop_numeral sim_defs initial_fields_def)

lemma stored_device_reachable: "reachable (hdr 8) (sim (only ''B'')) stored_device"
  unfolding stored_device_def
  by (intro reachable.after_addKnownNetwork reachable.constructed)

text \<open>
  C5. In a reachable state whose registry is not empty and has the empty name in entry
  0, with the link not up already and a ticking clock, \<^verbatim>\<open>_connectToNetwork\<close> returns,
  and its first attempt is made with the radio's stored credential (\<^verbatim>\<open>WiFi.begin()\<close>
  without arguments), not with the fields of entry 0. If it succeeds, index 0 is the
  connected index and nothing else is attempted; if it fails, the entries from index 1
  on are attempted in order, each with its own name and secret. The maximum is taken to
  be at most \<open>2\<^sup>1\<^sup>5\<close>.
\<close>

theorem stored_credential_first:
  assumes reach: "reachable K E s" and max: "MAX_KNOWN_NETWORKS K \<le> 32768"
    and tick: "ticking E J" and room: "unat (connectionTimeoutMs s) + J < 2 ^ 32"
    and nc: "fst (wifi_status E (world s)) \<noteq> WL_CONNECTED"
    and some: "numKnownNetworks s \<noteq> 0" and e: "slot s 0 = Some e" and empty: "ssid e = []"
  shows "\<exists>ok s' evs r.
     (\<forall>k. connectToNetwork K E (rounds s + k) s = Some (ok, s')) \<and>
     calls s' = calls s @ Status (fst (wifi_status E (world s))) # evs \<and>
     tries (connectionTimeoutMs s) (None # map (literal s) [1..<numKnownNetworks s]) evs r \<and>
     ok = (r \<noteq> None) \<and>
     (case r of
        None \<Rightarrow> connectedIndex s' = INDEX_DISCONNECTED K
      | Some i \<Rightarrow> i < numKnownNetworks s \<and> connectedIndex s' = int i mod 256)"
proof -
  let ?st = "fst (wifi_status E (world s))"
  have wf: "wf_registry s" using reachable_registry [OF reach max] by simp
  obtain ok s' where all: "\<And>k. connectToNetwork K E (rounds s + k) s = Some (ok, s')"
    using connectToNetwork_run [OF tick room wf, of K] by blast
  have run: "connectToNetwork K E (rounds s) s = Some (ok, s')" using all [of 0] by simp
  obtain s0 where st: "WiFi_status E s = (?st, s0)"
    by (cases "wifi_status E (world s)") (simp add: WiFi_status_def)
  obtain evs r where r: "calls s' = calls s @ Status ?st # evs"
    "tries (connectionTimeoutMs s) (credentials s) evs r"
    "case r of
       None \<Rightarrow> \<not> ok \<and> connectedIndex s' = INDEX_DISCONNECTED K
     | Some i \<Rightarrow> ok \<and> i < numKnownNetworks s \<and> connectedIndex s' = int i mod 256"
    using connectToNetwork_tries [OF run st nc] by auto
  have "credentials s = None # map (literal s) [1..<numKnownNetworks s]"
    using credentials_stored [OF some e empty] by simp
  moreover have "ok = (r \<noteq> None)" using r(3) by (cases r) auto
  moreover have "case r of
        None \<Rightarrow> connectedIndex s' = INDEX_DISCONNECTED K
      | Some i \<Rightarrow> i < numKnownNetworks s \<and> connectedIndex s' = int i mod 256"
    using r(3) by (cases r) auto
  ultimately have "calls s' = calls s @ Status ?st # evs \<and>
     tries (connectionTimeoutMs s) (None # map (literal s) [1..<numKnownNetworks s]) evs r \<and>
     ok = (r \<noteq> None) \<and>
     (case r of
        None \<Rightarrow> connectedIndex s' = INDEX_DISCONNECTED K
      | Some i \<Rightarrow> i < numKnownNetworks s \<and> connectedIndex s' = int i mod 256)"
    using r(1,2) by simp
  then show ?thesis using all by blast
qed

theorem stored_credential_first_witness:
  "(\<forall>k. connectToNetwork (hdr 8) (sim (only ''B'')) (102 + k) stored_device
      = Some (True, stored_joined)) \<and>
   tries 10000 [None, Some (''B'', ''b'')]
     [Begin None, Millis 0, Status WL_CONNECT_FAILED,
      Begin (Some (''B'', ''b'')), Millis 0, Status WL_CONNECTED] (Some 1) \<and>
   calls stored_joined =
     [Status WL_IDLE_STATUS,
      Begin None, Millis 0, Status WL_CONNECT_FAILED,
      Begin (Some (''B'', ''b'')), Millis 0, Status WL_CONNECTED] \<and>
   connectedIndex stored_joined = 1"
proof -
  let ?E = "sim (only ''B'')"
  have f: "fst (wifi_status ?E (world stored_device)) = WL_IDLE_STATUS"
    "connectionTimeoutMs stored_device = 10000" "numKnownNetworks stored_device = 2"
    "calls stored_device = []" "rounds stored_device = 102"
    by (simp_all add: stored_device_eval initial_fields_def sim_defs rounds_def)
  have h: "MAX_KNOWN_NETWORKS (hdr 8) \<le> 32768"
    "unat (connectionTimeoutMs stored_device) + 100 < 2 ^ 32"
    "fst (wifi_status ?E (world stored_device)) \<noteq> WL_CONNECTED"
    "numKnownNetworks stored_device \<noteq> 0"
    "slot stored_device 0 = Some \<lparr>ssid = [], passwd = []\<rparr>"
    "ssid \<lparr>ssid = [], passwd = []\<rparr> = []"
    unfolding f by (simp_all add: stored_device_eval hdr_def slot_def)
  have l: "map (literal stored_device) [1..<2] = [Some (''B'', ''b'')]"
    by (simp add: stored_device_eval literal_def slot_def upt_conv_Cons)
  have c: "calls stored_joined =
     [Status WL_IDLE_STATUS,
      Begin None, Millis 0, Status WL_CONNECT_FAILED,
      Begin (Some (''B'', ''b'')), Millis 0, Status WL_CONNECTED]"
    "connectedIndex stored_joined = 1"
    by (simp_all add: stored_joined_def)
  obtain ok s' evs r where
    run: "\<forall>k. connectToNetwork (hdr 8) ?E (rounds stored_device + k) stored_device = Some (ok, s')"
    and log: "calls s' = calls stored_device @ Status (fst (wifi_status ?E (world stored_device))) # evs"
    and tr: "tries (connectionTimeoutMs stored_device)
        (None # map (literal stored_device) [1..<numKnownNetworks stored_device]) evs r"
    and ok: "ok = (r \<noteq> None)"
    and idx: "case r of
        None \<Rightarrow> connectedIndex s' = INDEX_DISCONNECTED (hdr 8)
      | Some i \<Rightarrow> i < numKnownNetworks stored_device \<and> connectedIndex s' = int i mod 256"
    using stored_credential_first [OF stored_device_reachable h(1) ticking_sim h(2-6)]
    by (elim exE conjE)
  have more: "connectToNetwork (hdr 8) ?E (2 + k) stored_device = Some (True, stored_joined)" for k
    using stored_device_connect by (rule connectToNetwork_more_fuel)
  have "connectToNetwork (hdr 8) ?E (rounds stored_device + 0) stored_device = Some (ok, s')"
    using run by (rule spec)
  then have res: "ok = True" "s' = stored_joined" using more [of 100] f(5) by simp_all
  obtain i where i: "r = Some i" using ok res by (cases r) simp_all
  have "i < 2 \<and> int i mod 256 = 1" using idx i res c(2) f(3) by simp
  then have "i = 1" by (cases "i = 0") auto
  moreover have "evs = [Begin None, Millis 0, Status WL_CONNECT_FAILED,
      Begin (Some (''B'', ''b'')), Millis 0, Status WL_CONNECTED]"
    using log res c(1) f by simp
  ultimately have "tries 10000 [None, Some (''B'', ''b'')]
     [Begin None, Millis 0, Status WL_CONNECT_FAILED,
      Begin (Some (''B'', ''b'')), Millis 0, Status WL_CONNECTED] (Some 1)"
    using tr i l f by simp
  moreover have "connectToNetwork (hdr 8) ?E (102 + k) stored_device = Some (True, stored_joined)" for k
    using more [of "100 + k"] by (simp add: add.assoc [symmetric])
  ultimately show ?thesis using c by simp
qed

subsection \<open>The portal, with room in the registry and without\<close>

text \<open>The example of the specification: an empty registry, the portal enabled.\<close>

lemma portal_device_example:
  "startup (hdr 8) (sim (only ''B'')) 1 portal_device = Some (True, portal_joined) \<and>
   numKnownNetworks portal_device = 0 \<and>
   hasKnownNetwork (hdr 8) portal_joined ''NewNet'' \<and>
   lookupKnownNetwork (hdr 8) portal_joined ''NewNet'' = connectedIndex portal_joined \<and>
   connected (hdr 8) portal_joined"
  using portal_device_startup
  by (simp add: portal_device_def portal_joined_def portal_world_def registry_defs sim_defs
        WiFiBase_def initial_fields_def configureAccessPoint_def connected_def)

lemma full_portal_device_eval:
  "full_portal_device = (initial_fields (hdr 2) portal_world)
     \<lparr>APSsid := Some ''Setup'', APPasswd := Some ''setup-pw'', accessPointEnabled := True,
      numKnownNetworks := 2, allocatedKnownNetworks := 2,
      knownNetworks := [Some \<lparr>ssid = ''A'', passwd = ''a''\<rparr>, Some \<lparr>ssid = ''B'', passwd = ''b''\<rparr>]\<rparr>"
  by (simp add: full_portal_device_def registry_defs WiFiBase_def initial_fields_def hdr_def
        replicate_small configureAccessPoint_def)

text \<open>
  C7. Fallback to the config portal when every entry is exhausted: the portal is started
  with the configured name and secret, and on its success the learned pair is added to
  the registry, its index becomes the connected index and \<^verbatim>\<open>startup()\<close> returns true.
  The code breaks it when the registry is full: \<^verbatim>\<open>_startupAccessPoint\<close> does not look at
  what \<^verbatim>\<open>addKnownNetwork\<close> returns. Here \<^verbatim>\<open>startup()\<close> returns true, \<open>NewNet\<close> is not
  in the registry, and the connected index is 1, the entry of \<open>B\<close>.
\<close>

theorem startup_portal_full_registry:
  "(case startup (hdr 2) (sim (only ''X'')) 2 full_portal_device of
      None \<Rightarrow> False
    | Some (ok, s') \<Rightarrow>
        ok \<and> \<not> hasKnownNetwork (hdr 2) s' ''NewNet'' \<and> numKnownNetworks s' = 2 \<and>
        connectedIndex s' = 1 \<and> slot s' 1 = Some \<lparr>ssid = ''B'', passwd = ''b''\<rparr> \<and>
        calls s' =
          [Status WL_IDLE_STATUS,
           Begin (Some (''A'', ''a'')), Millis 0, Status WL_CONNECT_FAILED,
           Begin (Some (''B'', ''b'')), Millis 0, Status WL_CONNECT_FAILED,
           StartConfigPortal (Some ''Setup'') (Some ''setup-pw'') True])"
  by (simp add: full_portal_device_eval model_defs registry_defs connectWait_loop_numeral
        sim_defs portal_world_def initial_fields_def)

subsection \<open>The fallback to the config portal\<close>

lemma startup_falls_back:
  assumes "connectToNetwork K E n s = Some (False, s1)"
  shows "startup K E n s =
           (if accessPointEnabled s then Some (startupAccessPoint K E s1) else Some (False, s1))"
proof -
  have "accessPointEnabled s1 = accessPointEnabled s"
    using connectToNetwork_frame [OF assms] by (simp add: same_config_def)
  then show ?thesis using assms by (simp add: startup_def split: prod.splits)
qed

lemma startupAccessPoint_fails:
  assumes "startConfigPortal E (APSsid s) (APPasswd s) (world s) = (False, w)"
  shows "startupAccessPoint K E s =
           (False, s\<lparr>world := w, calls := calls s @ [StartConfigPortal (APSsid s) (APPasswd s) False]\<rparr>)"
  using assms by (simp add: startupAccessPoint_def call_startConfigPortal_def)

lemma same_registry_lookup:
  assumes "same_registry s s'"
  shows "lookup_loop K s' name i = lookup_loop K s name i"
proof (induction "numKnownNetworks s - i" arbitrary: i)
  case 0
  then have "\<not> i < numKnownNetworks s" "\<not> i < numKnownNetworks s'"
    using assms by (simp_all add: same_registry_def)
  then show ?case
    by (simp add: lookup_loop.simps [of K s name i] lookup_loop.simps [of K s' name i])
next
  case (Suc d)
  have m: "ssid_matches s' i name = ssid_matches s i name" "numKnownNetworks s' = numKnownNetworks s"
    using assms by (simp_all add: same_registry_def ssid_matches_def slot_def)
  have "lookup_loop K s' name (Suc i) = lookup_loop K s name (Suc i)"
    using Suc.hyps(1) [of "Suc i"] Suc.hyps(2) by simp
  then show ?case
    using m by (simp add: lookup_loop.simps [of K s name i] lookup_loop.simps [of K s' name i])
qed

lemma same_registry_present: "same_registry s s' \<Longrightarrow> present s' name = present s name"
  by (simp add: present_def same_registry_def ssid_matches_def slot_def)

text \<open>
  When the portal succeeds and \<^verbatim>\<open>addKnownNetwork\<close> can take the learned network (it
  is known already, or there is room, or room to grow), the network is in the registry
  afterwards and the connected index is its index. The registry is taken to hold fewer
  than 256 entries and the reserved index not to be an index in use.
\<close>

lemma startupAccessPoint_learns:
  assumes wf: "wf_registry s"
    and portal: "startConfigPortal E (APSsid s) (APPasswd s) (world s) = (True, w)"
    and room: "present s (getSSID E w) \<or> allocatedKnownNetworks s = 0 \<or>
               numKnownNetworks s < allocatedKnownNetworks s \<or>
               numKnownNetworks s < MAX_KNOWN_NETWORKS K"
    and wrap: "numKnownNetworks s = allocatedKnownNetworks s \<longrightarrow> allocatedKnownNetworks s * 2 < 65536"
    and small: "numKnownNetworks s < 256"
    and sent: "valid_sentinel K (numKnownNetworks s + 1)"
  shows "fst (startupAccessPoint K E s) \<and>
    hasKnownNetwork K (snd (startupAccessPoint K E s)) (getSSID E w) \<and>
    lookupKnownNetwork K (snd (startupAccessPoint K E s)) (getSSID E w)
      = connectedIndex (snd (startupAccessPoint K E s)) \<and>
    connected K (snd (startupAccessPoint K E s)) \<and>
    numKnownNetworks (snd (startupAccessPoint K E s))
      = (if present s (getSSID E w) then numKnownNetworks s else numKnownNetworks s + 1)"
proof -
  let ?name = "getSSID E w" and ?pw = "getPassword E w"
  let ?s1 = "s\<lparr>world := w, calls := calls s @ [StartConfigPortal (APSsid s) (APPasswd s) True]\<rparr>"
  have p: "call_startConfigPortal E (APSsid s) (APPasswd s) s = (True, ?s1)"
    using portal by (simp add: call_startConfigPortal_def)
  have r1: "same_registry s ?s1" by (simp add: same_registry_def)
  have w1: "world ?s1 = w" by simp
  have wf1: "wf_registry ?s1" using wf same_registry_inv(1) [OF r1] by simp
  have sent0: "valid_sentinel K (numKnownNetworks s)"
    using sent by (rule valid_sentinel_mono) simp
  obtain ok s' where run: "startupAccessPoint K E s = (ok, s')"
    by (cases "startupAccessPoint K E s")
  from run p have "ok \<and> hasKnownNetwork K s' ?name \<and> lookupKnownNetwork K s' ?name = connectedIndex s' \<and>
      connected K s' \<and>
      numKnownNetworks s' = (if present s ?name then numKnownNetworks s else numKnownNetworks s + 1)"
  proof (cases rule: startupAccessPoint_cases)
    case failed
    then show ?thesis by simp
  next
    case known
    let ?i = "lookupKnownNetwork K ?s1 ?name"
    have pr: "present ?s1 ?name"
      using known(3) lookup_absent [of ?s1 ?name K] w1 by auto
    then obtain j where j: "j < numKnownNetworks ?s1" "?i = int j"
      using lookup_present [of ?s1 ?name K] w1 by auto
    have ci: "connectedIndex s' = int j"
      using known(4) j small w1 by (simp add: setConnected_def)
    have rs: "same_registry ?s1 s'"
      using known(4) by (simp add: same_registry_def setConnected_def)
    have "lookupKnownNetwork K s' ?name = int j"
      using same_registry_lookup [OF rs, of K ?name 0] j(2) w1 by (simp add: lookupKnownNetwork_def)
    moreover have "int j \<noteq> INDEX_DISCONNECTED K"
      using sent0 j(1) by (auto simp: valid_sentinel_def)
    moreover have "present s ?name" using pr same_registry_present [OF r1] by simp
    moreover have "numKnownNetworks s' = numKnownNetworks s"
      using rs by (simp add: same_registry_def)
    ultimately show ?thesis
      using ci known(2) by (simp add: hasKnownNetwork_def connected_def)
  next
    case (learned added s2)
    have np1: "\<not> present ?s1 ?name"
      using learned(3) lookup_present [of ?s1 ?name K] sent0 w1
      by (auto simp: valid_sentinel_def)
    then have np: "\<not> present s ?name" using same_registry_present [OF r1] by simp
    have nh: "\<not> hasKnownNetwork K ?s1 ?name" using np1 by (rule has_absent)
    have room1: "allocatedKnownNetworks ?s1 = 0 \<or> numKnownNetworks ?s1 < allocatedKnownNetworks ?s1 \<or>
        numKnownNetworks ?s1 < MAX_KNOWN_NETWORKS K"
      using room np by simp
    have wrap1: "numKnownNetworks ?s1 = allocatedKnownNetworks ?s1 \<longrightarrow>
        allocatedKnownNetworks ?s1 * 2 < 65536"
      using wrap by simp
    note app = addKnownNetwork_appends [OF wf1 nh room1 wrap1, of ?pw]
    have s2: "s2 = snd (addKnownNetwork K ?s1 ?name ?pw)" using learned(4) w1 by simp
    let ?n = "numKnownNetworks s"
    have n2: "numKnownNetworks s2 = ?n + 1" using app(3) s2 by simp
    have slot2: "slot s2 ?n = Some \<lparr>ssid = ?name, passwd = ?pw\<rparr>"
      using appended_slot [OF app(4) app(2) app(3) wf1] s2 by simp
    have old: "\<not> ssid_matches s2 k ?name" if "k < ?n" for k
    proof -
      have "known s2 ! k = known ?s1 ! k"
        using app(2) s2 that wf1 by (simp add: nth_append known_def wf_registry_def)
      moreover have "known s2 ! k = knownNetworks s2 ! k" using that n2 by (simp add: known_def)
      moreover have "known ?s1 ! k = knownNetworks ?s1 ! k" using that by (simp add: known_def)
      moreover have "k < length (knownNetworks s2)" "k < length (knownNetworks ?s1)"
        using that n2 app(4) wf1 s2 by (simp_all add: wf_registry_def)
      ultimately have "slot s2 k = slot ?s1 k" by (simp add: slot_def)
      moreover have "\<not> ssid_matches ?s1 k ?name" using np1 that by (auto simp: present_def)
      ultimately show ?thesis by (simp add: ssid_matches_def)
    qed
    have look2: "lookup_loop K s2 ?name 0 = int ?n"
      by (rule lookup_loop_first) (use n2 slot2 old in \<open>simp_all add: ssid_matches_def\<close>)
    have rs: "same_registry s2 s'"
      using learned(5) by (simp add: same_registry_def setConnected_def)
    have ci: "connectedIndex s' = int ?n"
      using learned(5) n2 small by (simp add: setConnected_def)
    have "lookupKnownNetwork K s' ?name = int ?n"
      using same_registry_lookup [OF rs, of K ?name 0] look2 by (simp add: lookupKnownNetwork_def)
    moreover have "int ?n \<noteq> INDEX_DISCONNECTED K"
      using sent by (auto simp: valid_sentinel_def)
    moreover have "numKnownNetworks s' = ?n + 1" using rs n2 by (simp add: same_registry_def)
    ultimately show ?thesis
      using ci learned(2) np by (simp add: hasKnownNetwork_def connected_def)
  qed
  then show ?thesis using run by simp
qed

end
